theory Spec2Isabelle
  imports Complex_Main "HOL-Library.Multiset"
begin

section \<open>The chip economy: data model\<close>

text \<open>
  The settlement engine of the Elo chip demo (\<^verbatim>\<open>src/src/index.tsx\<close> and its later
  variant with the S15 parameters, which adds the optional \<^verbatim>\<open>fixedYTopK\<close> argument).
  JavaScript numbers are modelled as exact reals: rounding, NaN and the infinities are
  outside the model. Array indices, ranks and sizes are natural numbers. The draws of
  \<^verbatim>\<open>normalLike()\<close> are an explicit argument \<open>noise\<close>: the \<open>j\<close>-th draw of a call is
  \<open>noise j\<close>.
\<close>

record player =
  p_id :: int
  skill :: real
  chips :: real

record band =
  b_start :: int
  b_end :: int
  b_total :: real

text \<open>What \<^verbatim>\<open>tierRun\<close> returns.\<close>

record settlement =
  r_order :: "nat list"
  r_ranks :: "nat list"
  r_deltas :: "real list"
  r_pool :: real
  r_fees :: "real list"
  r_payouts :: "real list"
  r_sharePool :: "real list"
  r_fixedY :: "real list"

text \<open>
  The entries of the history, by their \<^verbatim>\<open>type\<close> tag. The \<^verbatim>\<open>rows\<close> of a record are a
  rearrangement of the other fields for display and are left out.
\<close>

datatype event =
    DecayEvent real real
  | RegionalEvent "nat list" settlement
  | WorldsEvent "nat list" "int list" "nat list" "nat list" "real list" real
  | OtherEvent string "nat list" settlement

record params =
  z_world :: real
  y_world :: real
  decay_pct :: real

record state =
  st_players :: "player list"
  st_stage :: string
  st_history :: "event list"

text \<open>Reading a property of \<^verbatim>\<open>undefined\<close> throws.\<close>

datatype error = TypeError

definition world :: nat where
  "world = 48"

definition ourWorldQuota :: nat where
  "ourWorldQuota = 12"

section \<open>Ranking\<close>

text \<open>
  \<^verbatim>\<open>rankBy\<close>: the indices sorted by descending value with the stable sort of the
  language, then \<^verbatim>\<open>ranks[pid] = k + 1\<close> for the \<open>k\<close>-th index of the order. A slot of
  \<^verbatim>\<open>new Array(n)\<close> that was never written reads as rank 0 here.
\<close>

definition rankBy :: "real list \<Rightarrow> nat list \<times> nat list" where
  "rankBy vals =
     (let order = map snd (sort_key (\<lambda>x. - fst x) (zip vals [0..<length vals]));
          ranks = fold (\<lambda>(pid, k) ranks. ranks[pid := k + 1])
                    (zip order [0..<length order]) (replicate (length vals) 0)
      in (order, ranks))"

fun findIndex :: "('a \<Rightarrow> bool) \<Rightarrow> 'a list \<Rightarrow> nat option" where
  "findIndex P [] = None"
| "findIndex P (x # xs) = (if P x then Some 0 else map_option Suc (findIndex P xs))"

text \<open>
  The order in which the stable descending sort leaves two tagged values: the larger
  value first, of equal values the one with the smaller index.
\<close>

definition rankedBefore :: "(real \<times> nat) \<Rightarrow> (real \<times> nat) \<Rightarrow> bool" where
  "rankedBefore x y = (fst x > fst y \<or> (fst x = fst y \<and> snd x < snd y))"

section \<open>The weight builder\<close>

text \<open>\<^verbatim>\<open>Math.min(prevTail, x)\<close>, where \<open>None\<close> is the initial \<^verbatim>\<open>Infinity\<close>.\<close>

definition minTail :: "real option \<Rightarrow> real \<Rightarrow> real" where
  "minTail t x = (case t of None \<Rightarrow> x | Some v \<Rightarrow> min v x)"

text \<open>The body of the loop over the pairs \<open>k = 1..p\<close> of a band.\<close>

definition rampStep :: "real \<Rightarrow> real \<Rightarrow> int \<Rightarrow> nat \<Rightarrow> real list \<Rightarrow> real list" where
  "rampStep safeA safeB e k w =
     (let T_k = safeA + safeB * real k;
          per = T_k / 2;
          r1 = e - (int k - 1) * 2 - 1;
          r2 = r1 + 1
      in (w[nat (r1 - 1) := per])[nat (r2 - 1) := per])"

text \<open>
  The body of the loop over the bands; the state is the array and \<^verbatim>\<open>prevTail\<close>. Every
  write lands inside the array (lemma \<open>bandStep_length\<close> and the bounds \<open>1 \<le> s\<close>,
  \<open>e \<le> N\<close>), so \<open>list_update\<close> is the assignment.
\<close>

definition bandStep :: "nat \<Rightarrow> band \<Rightarrow> real list \<times> real option \<Rightarrow> real list \<times> real option" where
  "bandStep N b st =
     (case st of (w, prevTail) \<Rightarrow>
        let s = max 1 (b_start b);
            e = min (b_end b) (int N);
            m0 = e - s + 1
        in if m0 \<le> 0 then (w, prevTail)
           else
             let m = (if m0 mod 2 \<noteq> 0 then m0 - 1 else m0);
                 p = m div 2;
                 S = b_total b
             in if p \<le> 0 then (w, prevTail)
                else
                  let unconstrainedHeadPP = S / (real_of_int p + 1);
                      headPP = minTail prevTail unconstrainedHeadPP;
                      headPair = headPP * 2
                  in if p = 1 then
                       (let per = S / 2; r1 = e - 1; r2 = e
                        in ((w[nat (r1 - 1) := per])[nat (r2 - 1) := per], Some per))
                     else
                       (let denom = (real_of_int p * (1 - real_of_int p)) / 2;
                            B = (S - real_of_int p * headPair) / denom;
                            A = headPair - B * real_of_int p;
                            safeA = (if A < - (1 / 10 ^ 12) then 0 else A);
                            safeB = (if B < - (1 / 10 ^ 12) then 0 else B);
                            w' = fold (rampStep safeA safeB e) [1..<Suc (nat p)] w
                        in (w', Some (w' ! nat (e - 1)))))"

definition buildMonotoneByPairs :: "nat \<Rightarrow> real \<Rightarrow> real \<Rightarrow> band list \<Rightarrow> real list" where
  "buildMonotoneByPairs N top1 top2 bands =
     (let w0 = replicate N 0;
          w1 = (if N \<ge> 1 then w0[0 := top1] else w0);
          w2 = (if N \<ge> 2 then w1[1 := top2] else w1);
          prevTail = (if N \<ge> 2 then Some (w2 ! 1) else None)
      in fst (fold (bandStep N) bands (w2, prevTail)))"

definition weightsCup :: "nat \<Rightarrow> real list" where
  "weightsCup N = buildMonotoneByPairs N 0.15 0.09
     [\<lparr>b_start = 3, b_end = 4, b_total = 0.12\<rparr>,
      \<lparr>b_start = 5, b_end = 8, b_total = 0.16\<rparr>,
      \<lparr>b_start = 9, b_end = 16, b_total = 0.16\<rparr>,
      \<lparr>b_start = 17, b_end = 32, b_total = 0.16\<rparr>,
      \<lparr>b_start = 33, b_end = 64, b_total = 0.16\<rparr>]"

definition weightsReg :: "nat \<Rightarrow> real list" where
  "weightsReg N = buildMonotoneByPairs N 0.20 0.12
     [\<lparr>b_start = 3, b_end = 4, b_total = 0.16\<rparr>,
      \<lparr>b_start = 5, b_end = 8, b_total = 0.20\<rparr>,
      \<lparr>b_start = 9, b_end = 16, b_total = 0.32\<rparr>]"

definition weightsWorld :: "nat \<Rightarrow> real list" where
  "weightsWorld N = buildMonotoneByPairs N 0.16 0.10
     [\<lparr>b_start = 3, b_end = 4, b_total = 0.14\<rparr>,
      \<lparr>b_start = 5, b_end = 8, b_total = 0.20\<rparr>,
      \<lparr>b_start = 9, b_end = 16, b_total = 0.24\<rparr>,
      \<lparr>b_start = 17, b_end = 32, b_total = 0.16\<rparr>]"

definition weightsReg48 :: "nat \<Rightarrow> real list" where
  "weightsReg48 N = buildMonotoneByPairs N 0.15 0.09
     [\<lparr>b_start = 3, b_end = 4, b_total = 0.14\<rparr>,
      \<lparr>b_start = 5, b_end = 8, b_total = 0.20\<rparr>,
      \<lparr>b_start = 9, b_end = 16, b_total = 0.25\<rparr>,
      \<lparr>b_start = 17, b_end = 32, b_total = 0.17\<rparr>]"

definition weightsTPC :: "nat \<Rightarrow> real list" where
  "weightsTPC N = buildMonotoneByPairs N 0.18 0.11
     [\<lparr>b_start = 3, b_end = 4, b_total = 0.16\<rparr>,
      \<lparr>b_start = 5, b_end = 8, b_total = 0.19\<rparr>,
      \<lparr>b_start = 9, b_end = 16, b_total = 0.36\<rparr>]"

text \<open>
  The helpers of the self-tests (\<^verbatim>\<open>TestsPanel\<close>), with the tolerance as an argument:
  \<^verbatim>\<open>rangeSum\<close> over the ranks \<open>s..e\<close>, \<^verbatim>\<open>pairsEqual\<close> over the pairs of a band and
  \<^verbatim>\<open>nonIncreasing\<close> over the whole array.
\<close>

definition rangeSum :: "real list \<Rightarrow> nat \<Rightarrow> nat \<Rightarrow> real" where
  "rangeSum arr s e = foldl (+) 0 (drop (s - 1) (take e arr))"

fun pairsEqualFrom :: "real list \<Rightarrow> real \<Rightarrow> nat \<Rightarrow> nat \<Rightarrow> bool" where
  "pairsEqualFrom arr eps r 0 = True"
| "pairsEqualFrom arr eps r (Suc n) =
     (if \<bar>arr ! (r - 1) - arr ! r\<bar> > eps then False else pairsEqualFrom arr eps (r + 2) n)"

definition pairsEqual :: "real list \<Rightarrow> nat \<Rightarrow> nat \<Rightarrow> real \<Rightarrow> bool" where
  "pairsEqual arr s e eps = pairsEqualFrom arr eps s ((e + 2 - s) div 2)"

fun nonIncreasing :: "real list \<Rightarrow> real \<Rightarrow> bool" where
  "nonIncreasing (a # b # rest) eps = (if a + eps < b then False else nonIncreasing (b # rest) eps)"
| "nonIncreasing arr eps = True"

section \<open>Settlement\<close>

text \<open>\<^verbatim>\<open>weights[r - 1] || 0\<close>: a rank past the end of the array has weight 0.\<close>

definition weightOfRank :: "real list \<Rightarrow> nat \<Rightarrow> real" where
  "weightOfRank weights r = (if 1 \<le> r \<and> r - 1 < length weights then weights ! (r - 1) else 0)"

text \<open>\<^verbatim>\<open>Math.ceil(N / 2)\<close>.\<close>

definition ceilHalf :: "nat \<Rightarrow> nat" where
  "ceilHalf N = nat \<lceil>real N / 2\<rceil>"

text \<open>
  The body of the loop over the ranks \<open>r = 1..N\<close>, in the variant with \<^verbatim>\<open>fixedYTopK\<close>
  (\<open>None\<close>: not given). When no participant holds rank \<open>r\<close>, \<^verbatim>\<open>findIndex\<close> is \<open>-1\<close> and
  the assignments leave the elements of the arrays as they are.
\<close>

definition fixedOfRank :: "nat \<Rightarrow> real \<Rightarrow> bool \<Rightarrow> int option \<Rightarrow> nat \<Rightarrow> real" where
  "fixedOfRank N y giveYToTopHalf fixedYTopK r =
     (let topHalf = (r \<le> ceilHalf N);
          withinTopK = (case fixedYTopK of Some K \<Rightarrow> int r \<le> K | None \<Rightarrow> topHalf)
      in if giveYToTopHalf then (if withinTopK then y else 0) else y)"

definition payStepK ::
  "nat \<Rightarrow> real \<Rightarrow> real \<Rightarrow> real list \<Rightarrow> bool \<Rightarrow> int option \<Rightarrow> nat list \<Rightarrow> nat \<Rightarrow>
   real list \<times> real list \<times> real list \<Rightarrow> real list \<times> real list \<times> real list" where
  "payStepK N pool y weights giveYToTopHalf fixedYTopK ranks r acc =
     (case acc of (payouts, sharePool, fixedY) \<Rightarrow>
        let idxInParticipants = findIndex (\<lambda>rr. rr = r) ranks;
            share = weightOfRank weights r * pool;
            fixed = fixedOfRank N y giveYToTopHalf fixedYTopK r
        in case idxInParticipants of
             None \<Rightarrow> (payouts, sharePool, fixedY)
           | Some i \<Rightarrow> (payouts[i := share + fixed], sharePool[i := share], fixedY[i := fixed]))"

text \<open>\<^verbatim>\<open>playersIdx.forEach((pi, j) => { players[pi].chips += deltas[j]; })\<close>\<close>

definition applyDeltas :: "nat list \<Rightarrow> real list \<Rightarrow> player list \<Rightarrow> player list" where
  "applyDeltas playersIdx deltas players =
     fold (\<lambda>(pi, j) ps. ps[pi := (ps ! pi)\<lparr>chips := chips (ps ! pi) + deltas ! j\<rparr>])
       (zip playersIdx [0..<length playersIdx]) players"

text \<open>
  \<^verbatim>\<open>tierRun\<close> with the optional \<^verbatim>\<open>fixedYTopK\<close>. An index of \<^verbatim>\<open>playersIdx\<close> outside the
  roster throws at the first line that reads \<^verbatim>\<open>players[pi].skill\<close>, before anything is
  written. The result is the roster after the call and the returned record.
\<close>

definition tierRunK ::
  "nat list \<Rightarrow> player list \<Rightarrow> real \<Rightarrow> real \<Rightarrow> real list \<Rightarrow> bool \<Rightarrow> int option \<Rightarrow>
   (nat \<Rightarrow> real) \<Rightarrow> error + (player list \<times> settlement)" where
  "tierRunK playersIdx players z y weights giveYToTopHalf fixedYTopK noise =
     (if \<not> list_all (\<lambda>pi. pi < length players) playersIdx then Inl TypeError
      else
        let N = length playersIdx;
            perf = map (\<lambda>(pi, j). skill (players ! pi) + noise j) (zip playersIdx [0..<N]);
            (order, ranks) = rankBy perf;
            fees = map (\<lambda>pi. chips (players ! pi) / z) playersIdx;
            pool = foldl (+) 0 fees;
            (payouts, sharePool, fixedY) =
               fold (payStepK N pool y weights giveYToTopHalf fixedYTopK ranks) [1..<Suc N]
                 (replicate N 0, replicate N 0, replicate N 0);
            deltas = map (\<lambda>j. payouts ! j - fees ! j) [0..<length payouts];
            players' = applyDeltas playersIdx deltas players
        in Inr (players',
                \<lparr>r_order = order, r_ranks = ranks, r_deltas = deltas, r_pool = pool,
                 r_fees = fees, r_payouts = payouts, r_sharePool = sharePool,
                 r_fixedY = fixedY\<rparr>))"

text \<open>
  \<^verbatim>\<open>tierRun\<close> of \<^verbatim>\<open>src/src/index.tsx\<close>, which has no \<^verbatim>\<open>fixedYTopK\<close>: the bonus goes to the
  top half when \<^verbatim>\<open>giveYToTopHalf\<close> is set, to everybody otherwise.
\<close>

definition payStep ::
  "nat \<Rightarrow> real \<Rightarrow> real \<Rightarrow> real list \<Rightarrow> bool \<Rightarrow> nat list \<Rightarrow> nat \<Rightarrow>
   real list \<times> real list \<times> real list \<Rightarrow> real list \<times> real list \<times> real list" where
  "payStep N pool y weights giveYToTopHalf ranks r acc =
     (case acc of (payouts, sharePool, fixedY) \<Rightarrow>
        let idxInParticipants = findIndex (\<lambda>rr. rr = r) ranks;
            share = weightOfRank weights r * pool;
            topHalf = (r \<le> ceilHalf N);
            fixed = (if giveYToTopHalf then (if topHalf then y else 0) else y)
        in case idxInParticipants of
             None \<Rightarrow> (payouts, sharePool, fixedY)
           | Some i \<Rightarrow> (payouts[i := share + fixed], sharePool[i := share], fixedY[i := fixed]))"

definition tierRun ::
  "nat list \<Rightarrow> player list \<Rightarrow> real \<Rightarrow> real \<Rightarrow> real list \<Rightarrow> bool \<Rightarrow>
   (nat \<Rightarrow> real) \<Rightarrow> error + (player list \<times> settlement)" where
  "tierRun playersIdx players z y weights giveYToTopHalf noise =
     (if \<not> list_all (\<lambda>pi. pi < length players) playersIdx then Inl TypeError
      else
        let N = length playersIdx;
            perf = map (\<lambda>(pi, j). skill (players ! pi) + noise j) (zip playersIdx [0..<N]);
            (order, ranks) = rankBy perf;
            fees = map (\<lambda>pi. chips (players ! pi) / z) playersIdx;
            pool = foldl (+) 0 fees;
            (payouts, sharePool, fixedY) =
               fold (payStep N pool y weights giveYToTopHalf ranks) [1..<Suc N]
                 (replicate N 0, replicate N 0, replicate N 0);
            deltas = map (\<lambda>j. payouts ! j - fees ! j) [0..<length payouts];
            players' = applyDeltas playersIdx deltas players
        in Inr (players',
                \<lparr>r_order = order, r_ranks = ranks, r_deltas = deltas, r_pool = pool,
                 r_fees = fees, r_payouts = payouts, r_sharePool = sharePool,
                 r_fixedY = fixedY\<rparr>))"

text \<open>
  The eligibility policies of the specification and the arguments with which the callers
  select them: \<^verbatim>\<open>giveYToTopHalf: false\<close> pays every rank (Regionals, Worlds, TPC),
  \<^verbatim>\<open>giveYToTopHalf: true\<close> pays the top half (Cup) or, when \<^verbatim>\<open>fixedYTopK\<close> is given, the
  ranks \<open>1..K\<close> (S15 Cup). \<open>eligible\<close> and \<open>eligibleCount\<close> follow the words of the
  specification: the ranks a policy names, and how many of \<open>1..N\<close> they are.
\<close>

datatype policy = AllRanks | TopHalf | TopK int

fun policyFlag :: "policy \<Rightarrow> bool" where
  "policyFlag AllRanks = False"
| "policyFlag TopHalf = True"
| "policyFlag (TopK k) = True"

fun policyK :: "policy \<Rightarrow> int option" where
  "policyK AllRanks = None"
| "policyK TopHalf = None"
| "policyK (TopK k) = Some k"

fun eligible :: "policy \<Rightarrow> nat \<Rightarrow> nat \<Rightarrow> bool" where
  "eligible AllRanks N r = True"
| "eligible TopHalf N r = (r \<le> ceilHalf N)"
| "eligible (TopK k) N r = (int r \<le> k)"

fun eligibleCount :: "policy \<Rightarrow> nat \<Rightarrow> nat" where
  "eligibleCount AllRanks N = N"
| "eligibleCount TopHalf N = ceilHalf N"
| "eligibleCount (TopK k) N = min N (nat k)"

section \<open>Decay and Worlds\<close>

text \<open>
  \<^verbatim>\<open>decayAll\<close>: the percentage is clamped to \<open>[0, 100]\<close>, every balance is multiplied by
  the factor and floored at 0, and a decay record is appended.
\<close>

definition decayAll :: "params \<Rightarrow> state \<Rightarrow> state" where
  "decayAll ps st =
     (let pct = max 0 (min 100 (decay_pct ps));
          factor = 1 - pct / 100
      in \<lparr>st_players = map (\<lambda>p. p\<lparr>chips := max 0 (chips p * factor)\<rparr>) (st_players st),
          st_stage = ''decay'',
          st_history = st_history st @ [DecayEvent factor pct]\<rparr>)"

text \<open>
  \<^verbatim>\<open>median\<close>: on the empty array the source returns NaN; here the value is then the
  unspecified \<open>[] ! 0\<close>, about which nothing is proved.
\<close>

definition median :: "real list \<Rightarrow> real" where
  "median arr =
     (let a = sort arr; m = length a div 2
      in if length a mod 2 \<noteq> 0 then a ! m else (a ! (m - 1) + a ! m) / 2)"

fun isRegional :: "event \<Rightarrow> bool" where
  "isRegional (RegionalEvent idxs res) = True"
| "isRegional e = False"

text \<open>
  The qualifiers of a Regional record: the point score of every slot, the slots sorted
  by descending score (stable), the first \<^verbatim>\<open>quota\<close> of them.
\<close>

definition regPoints :: "nat list \<Rightarrow> nat list \<Rightarrow> real list" where
  "regPoints regIdxs regRanks =
     (let wReg = weightsReg (length regIdxs)
      in map (\<lambda>r. weightOfRank wReg r * 100) regRanks)"

definition regOrder :: "nat list \<Rightarrow> nat list \<Rightarrow> nat list" where
  "regOrder regIdxs regRanks =
     (let pts = regPoints regIdxs regRanks
      in map snd (sort_key (\<lambda>x. - fst x) (zip pts [0..<length pts])))"

text \<open>
  The write-back of \<^verbatim>\<open>runWorlds\<close>: the balance of every entrant with a roster id
  (\<open>gid \<ge> 0\<close>) is copied to the roster; an external entrant (\<open>gid = -1\<close>) writes nothing.
\<close>

definition writeBack :: "int list \<Rightarrow> player list \<Rightarrow> player list \<Rightarrow> player list" where
  "writeBack allIdxs fakePlayers players =
     fold (\<lambda>k nx. let gid = allIdxs ! k
                   in if gid \<ge> 0
                      then nx[nat gid := (nx ! nat gid)\<lparr>chips := chips (fakePlayers ! k)\<rparr>]
                      else nx)
       [0..<length fakePlayers] players"

text \<open>
  The field of \<^verbatim>\<open>runWorlds\<close>: \<^verbatim>\<open>allIdxs\<close> holds the roster index of every qualifier and
  \<open>-1\<close> for each of the \<^verbatim>\<open>extN = max(0, world - ourLocal.length)\<close> external entrants;
  \<^verbatim>\<open>fakePlayers\<close> holds the qualifiers' skill and balance, and for the \<open>i\<close>-th external
  entrant the median skill plus \<open>0.8\<close> times the \<open>i\<close>-th draw and the median balance.
\<close>

definition worldsIdxs :: "nat list \<Rightarrow> int list" where
  "worldsIdxs ourLocal = map int ourLocal @ replicate (world - length ourLocal) (- 1)"

definition worldsField :: "player list \<Rightarrow> nat list \<Rightarrow> (nat \<Rightarrow> real) \<Rightarrow> player list" where
  "worldsField players ourLocal noise =
     (let extN = world - length ourLocal;
          medSkill = median (map (\<lambda>pi. skill (players ! pi)) ourLocal);
          medChips = median (map (\<lambda>pi. chips (players ! pi)) ourLocal);
          allIdxs = worldsIdxs ourLocal;
          allSkill = map (\<lambda>pi. skill (players ! pi)) ourLocal
                     @ map (\<lambda>i. medSkill + noise i * 0.8) [0..<extN];
          allChips = map (\<lambda>pi. chips (players ! pi)) ourLocal @ replicate extN medChips;
          N = length allIdxs
      in map (\<lambda>k. \<lparr>p_id = allIdxs ! k, skill = allSkill ! k, chips = allChips ! k\<rparr>) [0..<N])"

text \<open>
  \<^verbatim>\<open>runWorlds\<close>. The first \<^verbatim>\<open>extN\<close> draws are the skills of the external entrants, the
  next \<open>N\<close> the performances inside \<^verbatim>\<open>tierRun\<close>. A slot of the Regional record with no
  index, or an index outside the roster, throws when its skill is read.
\<close>

definition runWorlds :: "params \<Rightarrow> (nat \<Rightarrow> real) \<Rightarrow> state \<Rightarrow> error + state" where
  "runWorlds ps noise st =
     (case find isRegional (rev (st_history st)) of
        None \<Rightarrow> Inr st
      | Some lastReg \<Rightarrow>
         (case lastReg of
            RegionalEvent regIdxs res \<Rightarrow>
              let players = st_players st;
                  js = take ourWorldQuota (regOrder regIdxs (r_ranks res))
              in if \<not> list_all (\<lambda>j. j < length regIdxs \<and> regIdxs ! j < length players) js
                 then Inl TypeError
                 else
                   let ourLocal = map (\<lambda>j. regIdxs ! j) js;
                       extN = world - length ourLocal;
                       allIdxs = worldsIdxs ourLocal;
                       N = length allIdxs;
                       w = weightsWorld N;
                       fakePlayers = worldsField players ourLocal noise
                   in (case tierRun [0..<length fakePlayers] fakePlayers (z_world ps) (y_world ps)
                              w False (\<lambda>j. noise (extN + j)) of
                         Inl err \<Rightarrow> Inl err
                       | Inr (fakePlayers', res') \<Rightarrow>
                           Inr \<lparr>st_players = writeBack allIdxs fakePlayers' players,
                                st_stage = ''worlds'',
                                st_history = st_history st @
                                  [WorldsEvent ourLocal allIdxs (r_order res') (r_ranks res')
                                     (r_deltas res') (r_pool res')]\<rparr>)
          | _ \<Rightarrow> Inr st))"

section \<open>Facts about the ranking\<close>

lemma insort_before:
  assumes "sorted_wrt rankedBefore L" and "\<forall>y \<in> set L. snd x < snd y"
  shows "sorted_wrt rankedBefore (insort_key (\<lambda>x. - fst x) x L)"
  using assms
proof (induction L)
  case Nil
  then show ?case by simp
next
  case (Cons y ys)
  show ?case
  proof (cases "- fst x \<le> - fst y")
    case True
    have "rankedBefore x z" if "z \<in> set (y # ys)" for z
    proof -
      have "fst z \<le> fst y" using that Cons.prems(1) by (auto simp: rankedBefore_def)
      moreover have "snd x < snd z" using that Cons.prems(2) by auto
      ultimately show ?thesis using True by (auto simp: rankedBefore_def)
    qed
    then show ?thesis using True Cons.prems(1) by simp
  next
    case False
    have "sorted_wrt rankedBefore (insort_key (\<lambda>x. - fst x) x ys)"
      using Cons by simp
    moreover have "rankedBefore y z" if "z \<in> set (insort_key (\<lambda>x. - fst x) x ys)" for z
      using that False Cons.prems(1) by (auto simp: rankedBefore_def set_insort_key)
    ultimately show ?thesis using False by simp
  qed
qed

lemma sort_key_before:
  assumes "sorted_wrt (\<lambda>a b. snd a < snd b) xs"
  shows "sorted_wrt rankedBefore (sort_key (\<lambda>x. - fst x) xs)"
  using assms
proof (induction xs)
  case Nil
  then show ?case by simp
next
  case (Cons x xs)
  then show ?case by (simp add: insort_before)
qed

lemma zip_upt_sorted_snd: "sorted_wrt (\<lambda>a b. snd a < snd b) (zip (vals :: real list) [0..<length vals])"
proof -
  have "sorted_wrt (<) (map snd (zip vals [0..<length vals]))" by simp
  then show ?thesis by (simp only: sorted_wrt_map)
qed

text \<open>The writes of \<^verbatim>\<open>ranks[pid] = k + 1\<close>, for any offset of the counter.\<close>

lemma fold_rank_writes:
  assumes "distinct ord" and "\<forall>p \<in> set ord. p < length init"
  shows "length (fold (\<lambda>(pid, k) ranks. ranks[pid := k + 1]) (zip ord [m..<m + length ord]) init) = length init
    \<and> (\<forall>k < length ord. fold (\<lambda>(pid, k) ranks. ranks[pid := k + 1]) (zip ord [m..<m + length ord]) init ! (ord ! k) = m + k + 1)
    \<and> (\<forall>i. i \<notin> set ord \<longrightarrow> fold (\<lambda>(pid, k) ranks. ranks[pid := k + 1]) (zip ord [m..<m + length ord]) init ! i = init ! i)"
  using assms
proof (induction ord arbitrary: init m)
  case Nil
  then show ?case by simp
next
  case (Cons p ps)
  let ?init' = "init[p := m + 1]"
  have up: "[m..<m + length (p # ps)] = m # [Suc m..<Suc m + length ps]"
    by (simp add: upt_rec)
  have d: "distinct ps" and pn: "p \<notin> set ps" using Cons.prems(1) by auto
  have b: "\<forall>q \<in> set ps. q < length ?init'" using Cons.prems(2) by simp
  note IH = Cons.IH[OF d b, of "Suc m"]
  let ?res = "fold (\<lambda>(pid, k) ranks. ranks[pid := k + 1]) (zip ps [Suc m..<Suc m + length ps]) ?init'"
  have eq: "fold (\<lambda>(pid, k) ranks. ranks[pid := k + 1]) (zip (p # ps) [m..<m + length (p # ps)]) init = ?res"
    unfolding up by simp
  have plen: "p < length init" using Cons.prems(2) by simp
  have 1: "length ?res = length init" using IH by simp
  have 2: "?res ! ((p # ps) ! k) = m + k + 1" if "k < length (p # ps)" for k
  proof (cases k)
    case 0
    have "?res ! p = ?init' ! p" using IH pn by blast
    then show ?thesis using 0 plen by simp
  next
    case (Suc k')
    then have "k' < length ps" using that by simp
    then have "?res ! (ps ! k') = Suc m + k' + 1" using IH by blast
    then show ?thesis using Suc by simp
  qed
  have 3: "?res ! i = init ! i" if "i \<notin> set (p # ps)" for i
  proof -
    have "?res ! i = ?init' ! i" using IH that by auto
    then show ?thesis using that by simp
  qed
  show ?case unfolding eq using 1 2 3 by blast
qed

lemma rankBy_order_perm:
  "mset (fst (rankBy vals)) = mset [0..<length vals]"
proof -
  have "mset (map snd (sort_key (\<lambda>x. - fst x) (zip vals [0..<length vals])))
        = image_mset snd (mset (zip vals [0..<length vals]))"
    by simp
  also have "\<dots> = mset (map snd (zip vals [0..<length vals]))"
    by (simp only: mset_map)
  also have "\<dots> = mset [0..<length vals]"
    by (simp only: map_snd_zip length_upt diff_zero)
  finally show ?thesis by (simp add: rankBy_def Let_def)
qed

lemma rankBy_order_facts:
  "length (fst (rankBy vals)) = length vals"
  "distinct (fst (rankBy vals))"
  "set (fst (rankBy vals)) = {0..<length vals}"
proof -
  show "length (fst (rankBy vals)) = length vals"
    using mset_eq_length[OF rankBy_order_perm[of vals]] by simp
  show "distinct (fst (rankBy vals))"
    using mset_eq_imp_distinct_iff[OF rankBy_order_perm[of vals]] by simp
  show "set (fst (rankBy vals)) = {0..<length vals}"
    using mset_eq_setD[OF rankBy_order_perm[of vals]] by simp
qed

lemma rankBy_ranks_of_order:
  "length (snd (rankBy vals)) = length vals"
  "k < length vals \<Longrightarrow> snd (rankBy vals) ! (fst (rankBy vals) ! k) = k + 1"
proof -
  let ?ord = "fst (rankBy vals)"
  have r: "snd (rankBy vals) = fold (\<lambda>(pid, k) ranks. ranks[pid := k + 1])
              (zip ?ord [0..<0 + length ?ord]) (replicate (length vals) 0)"
    by (simp add: rankBy_def Let_def)
  have b: "\<forall>p \<in> set ?ord. p < length (replicate (length vals) (0::nat))"
    by (simp add: rankBy_order_facts(3))
  note F = fold_rank_writes[OF rankBy_order_facts(2) b, of 0, folded r]
  show "length (snd (rankBy vals)) = length vals" using F by simp
  show "snd (rankBy vals) ! (fst (rankBy vals) ! k) = k + 1" if "k < length vals"
    using F that by (simp add: rankBy_order_facts(1))
qed

lemma rankBy_ranks_map: "map (\<lambda>i. snd (rankBy vals) ! i) (fst (rankBy vals)) = [1..<Suc (length vals)]"
  by (rule nth_equalityI) (simp_all add: rankBy_order_facts(1) rankBy_ranks_of_order(2) del: upt_Suc)

lemma rankBy_ranks_perm: "mset (snd (rankBy vals)) = mset [1..<Suc (length vals)]"
proof -
  let ?r = "snd (rankBy vals)"
  have "mset ?r = mset (map (\<lambda>i. ?r ! i) [0..<length ?r])" by (simp add: map_nth)
  also have "\<dots> = image_mset (\<lambda>i. ?r ! i) (mset [0..<length vals])"
    by (simp add: rankBy_ranks_of_order(1))
  also have "\<dots> = image_mset (\<lambda>i. ?r ! i) (mset (fst (rankBy vals)))"
    by (simp only: rankBy_order_perm)
  also have "\<dots> = mset (map (\<lambda>i. ?r ! i) (fst (rankBy vals)))" by simp
  also have "\<dots> = mset [1..<Suc (length vals)]" by (simp only: rankBy_ranks_map)
  finally show ?thesis .
qed

lemma rankBy_sorted_elems:
  defines "L \<equiv> \<lambda>vals. sort_key (\<lambda>x. - fst x) (zip (vals :: real list) [0..<length vals])"
  shows "sorted_wrt rankedBefore (L vals)"
    and "length (L vals) = length vals"
    and "a < length vals \<Longrightarrow> L vals ! a = (vals ! (fst (rankBy vals) ! a), fst (rankBy vals) ! a)"
proof -
  show s: "sorted_wrt rankedBefore (L vals)"
    unfolding L_def by (rule sort_key_before[OF zip_upt_sorted_snd])
  show len: "length (L vals) = length vals"
    unfolding L_def by simp
  show "L vals ! a = (vals ! (fst (rankBy vals) ! a), fst (rankBy vals) ! a)" if "a < length vals"
  proof -
    have "L vals ! a \<in> set (L vals)" using that len by simp
    then have mem: "L vals ! a \<in> set (zip vals [0..<length vals])"
      unfolding L_def by simp
    then obtain i where "i < length vals" "L vals ! a = (vals ! i, i)"
      by (auto simp: set_zip)
    moreover have "fst (rankBy vals) ! a = snd (L vals ! a)"
      using that len by (simp add: rankBy_def Let_def L_def)
    ultimately show ?thesis by simp
  qed
qed

lemma rankBy_before_rank:
  assumes "i < length vals" "j < length vals"
    and "rankedBefore (vals ! i, i) (vals ! j, j)"
  shows "snd (rankBy vals) ! i < snd (rankBy vals) ! j"
proof -
  let ?ord = "fst (rankBy vals)"
  let ?L = "sort_key (\<lambda>x. - fst x) (zip vals [0..<length vals])"
  have "i \<in> set ?ord" "j \<in> set ?ord"
    using assms(1,2) by (simp_all add: rankBy_order_facts(3))
  then obtain a b where a: "a < length vals" "?ord ! a = i" and b: "b < length vals" "?ord ! b = j"
    by (auto simp: in_set_conv_nth rankBy_order_facts(1))
  have La: "?L ! a = (vals ! i, i)" using rankBy_sorted_elems(3)[OF a(1)] a(2) by simp
  have Lb: "?L ! b = (vals ! j, j)" using rankBy_sorted_elems(3)[OF b(1)] b(2) by simp
  have "a < b"
  proof (rule ccontr)
    assume "\<not> a < b"
    then consider "a = b" | "b < a" by linarith
    then show False
    proof cases
      case 1
      then have "i = j" using a b by simp
      then show False using assms(3) by (simp add: rankedBefore_def)
    next
      case 2
      have "rankedBefore (?L ! b) (?L ! a)"
        using rankBy_sorted_elems(1)[of vals] 2 a(1) rankBy_sorted_elems(2)[of vals]
        by (simp add: sorted_wrt_iff_nth_less)
      then show False using assms(3) unfolding La Lb by (auto simp: rankedBefore_def)
    qed
  qed
  moreover have "snd (rankBy vals) ! i = a + 1" using rankBy_ranks_of_order(2)[OF a(1)] a(2) by simp
  moreover have "snd (rankBy vals) ! j = b + 1" using rankBy_ranks_of_order(2)[OF b(1)] b(2) by simp
  ultimately show ?thesis by simp
qed

lemma rankBy_ranks_facts:
  "distinct (snd (rankBy vals))"
  "set (snd (rankBy vals)) = {1..length vals}"
proof -
  show "distinct (snd (rankBy vals))"
    using mset_eq_imp_distinct_iff[OF rankBy_ranks_perm[of vals]] by simp
  have "set (snd (rankBy vals)) = set [1..<Suc (length vals)]"
    by (rule mset_eq_setD[OF rankBy_ranks_perm])
  then show "set (snd (rankBy vals)) = {1..length vals}"
    by (simp only: set_upt atLeastLessThanSuc_atLeastAtMost)
qed

text \<open>
  Claim C8. The ranks that \<^verbatim>\<open>rankBy\<close> assigns to \<open>N\<close> values are a permutation of
  \<open>1..N\<close> without duplicates; a larger value has the better (smaller) rank, of two equal
  values the earlier slot has the better rank (the stability of the sort), the slot with
  rank 1 holds a largest value, and \<^verbatim>\<open>ranks\<close> inverts \<^verbatim>\<open>order\<close>.
\<close>

theorem rankBy_bijection:
  "mset (snd (rankBy vals)) = mset [1..<Suc (length vals)]
   \<and> length (snd (rankBy vals)) = length vals
   \<and> distinct (snd (rankBy vals))
   \<and> set (snd (rankBy vals)) = {1..length vals}
   \<and> (\<forall>i<length vals. \<forall>j<length vals.
         vals ! j < vals ! i \<longrightarrow> snd (rankBy vals) ! i < snd (rankBy vals) ! j)
   \<and> (\<forall>i<length vals. \<forall>j<length vals.
         vals ! i = vals ! j \<and> i < j \<longrightarrow> snd (rankBy vals) ! i < snd (rankBy vals) ! j)
   \<and> (\<forall>i<length vals. \<forall>j<length vals.
         snd (rankBy vals) ! i = 1 \<longrightarrow> vals ! j \<le> vals ! i)
   \<and> (\<forall>k<length vals. snd (rankBy vals) ! (fst (rankBy vals) ! k) = k + 1)"
proof -
  have gt: "snd (rankBy vals) ! i < snd (rankBy vals) ! j"
    if "i < length vals" "j < length vals" "vals ! j < vals ! i" for i j
    using that by (intro rankBy_before_rank) (simp_all add: rankedBefore_def)
  have tie: "snd (rankBy vals) ! i < snd (rankBy vals) ! j"
    if "i < length vals" "j < length vals" "vals ! i = vals ! j" "i < j" for i j
    using that by (intro rankBy_before_rank) (simp_all add: rankedBefore_def)
  have top: "vals ! j \<le> vals ! i"
    if "i < length vals" "j < length vals" "snd (rankBy vals) ! i = 1" for i j
  proof (rule ccontr)
    assume "\<not> vals ! j \<le> vals ! i"
    then have "snd (rankBy vals) ! j < snd (rankBy vals) ! i" using gt[OF that(2) that(1)] by simp
    moreover have "snd (rankBy vals) ! j \<in> set (snd (rankBy vals))"
      using that(2) by (simp add: rankBy_ranks_of_order(1))
    ultimately show False using that(3) by (simp add: rankBy_ranks_facts(2))
  qed
  show ?thesis
    using rankBy_ranks_perm[of vals] rankBy_ranks_of_order(1)[of vals] rankBy_ranks_facts[of vals]
      gt tie top rankBy_ranks_of_order(2)[of _ vals]
    by blast
qed

theorem rankBy_bijection_witness:
  "(2::real) < 3 \<and> snd (rankBy [3, 1, 2]) ! 0 < snd (rankBy [3, 1, 2]) ! 2
   \<and> snd (rankBy [3, 1, 2]) = [1, 3, 2]"
proof -
  have v: "snd (rankBy [3, 1, 2]) = [1, 3, 2]" by code_simp
  have h: "[3, 1, 2 :: real] ! 2 < [3, 1, 2] ! 0" by simp
  have "snd (rankBy [3, 1, 2]) ! 0 < snd (rankBy [3, 1, 2]) ! 2"
    using rankBy_bijection[of "[3, 1, 2]"] h by auto
  then show ?thesis using v by simp
qed

section \<open>Facts about the weight builder\<close>

lemma rampStep_length: "length (rampStep a b e k w) = length w"
  by (simp add: rampStep_def Let_def)

lemma fold_rampStep_length: "length (fold (rampStep a b e) ks w) = length w"
  by (induction ks arbitrary: w) (simp_all add: rampStep_length)

lemma bandStep_length: "length (fst (bandStep N b (w, t))) = length w"
  unfolding bandStep_def Let_def
  by (simp only: split_conv fst_conv length_list_update fold_rampStep_length
        if_distrib[of fst] if_distrib[of length] if_cancel)

section \<open>Non-negative weights\<close>

lemma ramp_coefficients:
  fixes p S H :: real
  assumes p: "2 \<le> p" and H: "H * (p + 1) \<le> 2 * S"
  defines "B \<equiv> (S - p * H) / ((p * (1 - p)) / 2)"
  defines "A \<equiv> H - B * p"
  shows "0 \<le> A" and "A + B * p = H"
proof -
  have p1: "0 < p - 1" and p0: "0 < p" using p by simp_all
  have "B * p * (p - 1) = - 2 * (S - p * H)"
    unfolding B_def using p0 p1 by (simp add: field_simps)
  then have "A * (p - 1) = H * (p - 1) + 2 * (S - p * H)"
    unfolding A_def by (simp add: algebra_simps)
  also have "\<dots> = 2 * S - H * (p + 1)" by (simp add: algebra_simps)
  finally have "0 \<le> A * (p - 1)" using H by simp
  then show "0 \<le> A" using p1 by (simp add: zero_le_mult_iff)
  show "A + B * p = H" unfolding A_def by simp
qed

lemma ramp_value_nonneg:
  fixes A B H p k :: real
  assumes "0 \<le> A" "A + B * p = H" "0 \<le> H" "1 \<le> k" "k \<le> p"
  shows "0 \<le> (if A < - (1 / 10 ^ 12) then 0 else A) + (if B < - (1 / 10 ^ 12) then 0 else B) * k"
proof -
  have sa: "(if A < - (1 / 10 ^ 12) then 0 else A) = A" using assms(1) by simp
  show ?thesis
  proof (cases "B < - (1 / 10 ^ 12)")
    case True
    then show ?thesis unfolding sa using assms(1) by simp
  next
    case False
    show ?thesis
    proof (cases "0 \<le> B")
      case True
      then have "0 \<le> B * k" using assms(4) by simp
      then show ?thesis unfolding sa using False assms(1) by simp
    next
      case neg: False
      then have "B * p \<le> B * k" using assms(5) by (simp add: mult_left_mono_neg)
      then have "H \<le> A + B * k" using assms(2) by simp
      then show ?thesis unfolding sa using False assms(3) by simp
    qed
  qed
qed

lemma rampStep_nonneg:
  assumes "\<forall>x \<in> set w. 0 \<le> x" "0 \<le> a + b * real k"
  shows "\<forall>x \<in> set (rampStep a b e k w). 0 \<le> x"
proof -
  have "set (rampStep a b e k w) \<subseteq> insert ((a + b * real k) / 2) (set w)"
    unfolding rampStep_def Let_def
  proof -
    let ?v = "(a + b * real k) / 2"
    have "set ((w[nat (e - (int k - 1) * 2 - 1 - 1) := ?v])[nat (e - (int k - 1) * 2 - 1 + 1 - 1) := ?v])
          \<subseteq> insert ?v (set (w[nat (e - (int k - 1) * 2 - 1 - 1) := ?v]))"
      by (rule set_update_subset_insert)
    also have "\<dots> \<subseteq> insert ?v (insert ?v (set w))"
      by (rule insert_mono) (rule set_update_subset_insert)
    finally show "set ((w[nat (e - (int k - 1) * 2 - 1 - 1) := ?v])[nat (e - (int k - 1) * 2 - 1 + 1 - 1) := ?v])
          \<subseteq> insert ?v (set w)" by simp
  qed
  then show ?thesis using assms by auto
qed

lemma fold_rampStep_nonneg:
  assumes "\<forall>x \<in> set w. 0 \<le> x" "\<forall>k \<in> set ks. 0 \<le> a + b * real k"
  shows "\<forall>x \<in> set (fold (rampStep a b e) ks w). 0 \<le> x"
  using assms
proof (induction ks arbitrary: w)
  case Nil
  then show ?case by simp
next
  case (Cons k ks)
  have k: "0 \<le> a + b * real k" and rest: "\<forall>k \<in> set ks. 0 \<le> a + b * real k"
    using Cons.prems(2) by simp_all
  have "\<forall>x \<in> set (rampStep a b e k w). 0 \<le> x"
    by (rule rampStep_nonneg[OF Cons.prems(1) k])
  from Cons.IH[OF this rest] show ?case by (simp only: fold_Cons o_apply)
qed

lemma bandStep_unfold:
  fixes N :: nat and b :: band and w :: "real list" and t :: "real option"
  defines "s \<equiv> max 1 (b_start b)" and "e \<equiv> min (b_end b) (int N)"
  defines "m0 \<equiv> e - s + 1"
  defines "p \<equiv> (if m0 mod 2 \<noteq> 0 then m0 - 1 else m0) div 2"
  defines "S \<equiv> b_total b"
  defines "H \<equiv> minTail t (S / (real_of_int p + 1)) * 2"
  defines "B \<equiv> (S - real_of_int p * H) / ((real_of_int p * (1 - real_of_int p)) / 2)"
  defines "A \<equiv> H - B * real_of_int p"
  defines "w' \<equiv> fold (rampStep (if A < - (1 / 10 ^ 12) then 0 else A)
                          (if B < - (1 / 10 ^ 12) then 0 else B) e) [1..<Suc (nat p)] w"
  shows "bandStep N b (w, t) =
     (if m0 \<le> 0 then (w, t)
      else if p \<le> 0 then (w, t)
      else if p = 1 then ((w[nat (e - 1 - 1) := S / 2])[nat (e - 1) := S / 2], Some (S / 2))
      else (w', Some (w' ! nat (e - 1))))"
  unfolding bandStep_def Let_def split_conv
  unfolding w'_def A_def B_def H_def S_def p_def m0_def e_def s_def
  by (rule refl)

lemma minTail_bounds:
  assumes "0 \<le> x" "\<forall>v. t = Some v \<longrightarrow> 0 \<le> v"
  shows "0 \<le> minTail t x" and "minTail t x \<le> x"
  using assms by (cases t; simp add: minTail_def)+

lemma bandStep_nonneg:
  fixes N :: nat and b :: band and w :: "real list" and t :: "real option"
  assumes len: "length w = N" and w: "\<forall>x \<in> set w. 0 \<le> x"
    and t: "\<forall>v. t = Some v \<longrightarrow> 0 \<le> v" and S: "0 \<le> b_total b"
  shows "length (fst (bandStep N b (w, t))) = N
    \<and> (\<forall>x \<in> set (fst (bandStep N b (w, t))). 0 \<le> x)
    \<and> (\<forall>v. snd (bandStep N b (w, t)) = Some v \<longrightarrow> 0 \<le> v)"
proof -
  define s where "s = max 1 (b_start b)"
  define e where "e = min (b_end b) (int N)"
  define m0 where "m0 = e - s + 1"
  define p where "p = (if m0 mod 2 \<noteq> 0 then m0 - 1 else m0) div 2"
  define S' where "S' = b_total b"
  define H where "H = minTail t (S' / (real_of_int p + 1)) * 2"
  define B where "B = (S' - real_of_int p * H) / ((real_of_int p * (1 - real_of_int p)) / 2)"
  define A where "A = H - B * real_of_int p"
  define sA where "sA = (if A < - (1 / 10 ^ 12) then 0 else A)"
  define sB where "sB = (if B < - (1 / 10 ^ 12) then 0 else B)"
  define w' where "w' = fold (rampStep sA sB e) [1..<Suc (nat p)] w"
  have U: "bandStep N b (w, t) =
     (if m0 \<le> 0 then (w, t)
      else if p \<le> 0 then (w, t)
      else if p = 1 then ((w[nat (e - 1 - 1) := S' / 2])[nat (e - 1) := S' / 2], Some (S' / 2))
      else (w', Some (w' ! nat (e - 1))))"
    unfolding w'_def sA_def sB_def A_def B_def H_def S'_def p_def m0_def e_def s_def
    by (rule bandStep_unfold)
  have S0: "0 \<le> S'" unfolding S'_def by (rule S)
  consider (none) "m0 \<le> 0 \<or> p \<le> 0" | (one) "0 < m0" "p = 1" | (many) "0 < m0" "2 \<le> p"
    by linarith
  then show ?thesis
  proof cases
    case none
    then have "bandStep N b (w, t) = (w, t)" unfolding U by auto
    then show ?thesis using len w t by simp
  next
    case one
    then have R: "bandStep N b (w, t)
        = ((w[nat (e - 1 - 1) := S' / 2])[nat (e - 1) := S' / 2], Some (S' / 2))"
      unfolding U by simp
    have "set ((w[nat (e - 1 - 1) := S' / 2])[nat (e - 1) := S' / 2])
          \<subseteq> insert (S' / 2) (set (w[nat (e - 1 - 1) := S' / 2]))"
      by (rule set_update_subset_insert)
    also have "\<dots> \<subseteq> insert (S' / 2) (insert (S' / 2) (set w))"
      by (rule insert_mono) (rule set_update_subset_insert)
    finally have "set ((w[nat (e - 1 - 1) := S' / 2])[nat (e - 1) := S' / 2])
          \<subseteq> insert (S' / 2) (set w)" by simp
    then have "\<forall>x \<in> set ((w[nat (e - 1 - 1) := S' / 2])[nat (e - 1) := S' / 2]). 0 \<le> x"
      using w S0 by auto
    then show ?thesis unfolding R using len S0 by simp
  next
    case many
    then have R: "bandStep N b (w, t) = (w', Some (w' ! nat (e - 1)))"
      unfolding U by simp
    let ?p = "real_of_int p"
    have p2: "2 \<le> ?p" using many(2) by simp
    have x0: "0 \<le> S' / (?p + 1)" using S0 p2 by simp
    have H0: "0 \<le> H" unfolding H_def using minTail_bounds(1)[OF x0 t] by simp
    have "minTail t (S' / (?p + 1)) * (?p + 1) \<le> S' / (?p + 1) * (?p + 1)"
      using minTail_bounds(2)[OF x0 t] p2 by (intro mult_right_mono) simp_all
    also have "\<dots> = S'" using p2 by simp
    finally have HS: "H * (?p + 1) \<le> 2 * S'" unfolding H_def by simp
    have A0: "0 \<le> A" and AB: "A + B * ?p = H"
      unfolding A_def B_def by (rule ramp_coefficients[OF p2 HS])+
    have vals: "\<forall>k \<in> set [1..<Suc (nat p)]. 0 \<le> sA + sB * real k"
    proof
      fix k assume "k \<in> set [1..<Suc (nat p)]"
      then have k: "1 \<le> real k" "real k \<le> ?p" using many(2) by auto
      show "0 \<le> sA + sB * real k"
        unfolding sA_def sB_def by (rule ramp_value_nonneg[OF A0 AB H0 k])
    qed
    have w'0: "\<forall>x \<in> set w'. 0 \<le> x"
      unfolding w'_def by (rule fold_rampStep_nonneg[OF w vals])
    have w'len: "length w' = N" unfolding w'_def by (simp add: fold_rampStep_length len)
    have "1 \<le> s" unfolding s_def by simp
    then have "1 \<le> e" using many(1) unfolding m0_def by simp
    moreover have "e \<le> int N" unfolding e_def by simp
    ultimately have "nat (e - 1) < length w'" unfolding w'len by simp
    then have "0 \<le> w' ! nat (e - 1)" using w'0 by simp
    then show ?thesis unfolding R using w'0 w'len by simp
  qed
qed

lemma fold_bandStep_nonneg:
  assumes "length w = N" "\<forall>x \<in> set w. 0 \<le> x" "\<forall>v. t = Some v \<longrightarrow> 0 \<le> v"
    and "\<forall>b \<in> set bands. 0 \<le> b_total b"
  shows "length (fst (fold (bandStep N) bands (w, t))) = N
    \<and> (\<forall>x \<in> set (fst (fold (bandStep N) bands (w, t))). 0 \<le> x)"
  using assms
proof (induction bands arbitrary: w t)
  case Nil
  then show ?case by simp
next
  case (Cons b bands)
  have b: "0 \<le> b_total b" and rest: "\<forall>b \<in> set bands. 0 \<le> b_total b"
    using Cons.prems(4) by simp_all
  obtain w1 t1 where st: "bandStep N b (w, t) = (w1, t1)" by (cases "bandStep N b (w, t)")
  from bandStep_nonneg[OF Cons.prems(1-3) b, unfolded st]
  have 1: "length w1 = N" "\<forall>x \<in> set w1. 0 \<le> x" "\<forall>v. t1 = Some v \<longrightarrow> 0 \<le> v"
    by simp_all
  have "fold (bandStep N) (b # bands) (w, t) = fold (bandStep N) bands (w1, t1)"
    by (simp only: fold_Cons o_apply st)
  then show ?case using Cons.IH[OF 1 rest] by simp
qed

text \<open>
  Non-negativity of the builder. When \<^verbatim>\<open>top1\<close>, \<^verbatim>\<open>top2\<close> and every band total are
  non-negative, every weight of the result is non-negative and the result has \<open>N\<close>
  entries, for every band list, clamped or not: the intercept solved for a clamped head is
  never negative, and a negative slope is either floored to 0 or so small that the ramp
  stays above the (non-negative) head.
\<close>

theorem buildMonotoneByPairs_nonneg:
  assumes "0 \<le> top1" "0 \<le> top2" "\<forall>b \<in> set bands. 0 \<le> b_total b"
  shows "length (buildMonotoneByPairs N top1 top2 bands) = N
    \<and> (\<forall>x \<in> set (buildMonotoneByPairs N top1 top2 bands). 0 \<le> x)"
proof -
  define w0 where "w0 = replicate N (0::real)"
  define w1 where "w1 = (if N \<ge> 1 then w0[0 := top1] else w0)"
  define w2 where "w2 = (if N \<ge> 2 then w1[1 := top2] else w1)"
  define t where "t = (if N \<ge> 2 then Some (w2 ! 1) else None)"
  have B: "buildMonotoneByPairs N top1 top2 bands = fst (fold (bandStep N) bands (w2, t))"
    unfolding buildMonotoneByPairs_def Let_def t_def w2_def w1_def w0_def by (rule refl)
  have len: "length w2 = N" by (simp add: w2_def w1_def w0_def)
  have "set w1 \<subseteq> insert top1 (set w0)"
    unfolding w1_def using set_update_subset_insert[of w0 0 top1] by auto
  moreover have "set w2 \<subseteq> insert top2 (set w1)"
    unfolding w2_def using set_update_subset_insert[of w1 1 top2] by auto
  moreover have "set w0 \<subseteq> {0}" unfolding w0_def by (simp add: set_replicate_conv_if)
  ultimately have "set w2 \<subseteq> {top1, top2, 0}" by blast
  then have nn: "\<forall>x \<in> set w2. 0 \<le> x" using assms(1,2) by auto
  have tn: "\<forall>v. t = Some v \<longrightarrow> 0 \<le> v"
    unfolding t_def using nn len by (auto split: if_splits)
  show ?thesis unfolding B by (rule fold_bandStep_nonneg[OF len nn tn assms(3)])
qed

theorem buildMonotoneByPairs_nonneg_witness:
  "(0::real) \<le> 0.18 \<and> (0::real) \<le> 0.11
   \<and> list_all (\<lambda>b. 0 \<le> b_total b)
         [\<lparr>b_start = 3, b_end = 4, b_total = 0.16\<rparr>,
          \<lparr>b_start = 5, b_end = 8, b_total = 0.19\<rparr>,
          \<lparr>b_start = 9, b_end = 16, b_total = 0.36\<rparr>]
   \<and> length (weightsTPC 32) = 32
   \<and> list_all (\<lambda>x. 0 \<le> x) (weightsTPC 32)"
proof -
  let ?bands = "[\<lparr>b_start = 3, b_end = 4, b_total = 0.16\<rparr>,
          \<lparr>b_start = 5, b_end = 8, b_total = 0.19\<rparr>,
          \<lparr>b_start = 9, b_end = 16, b_total = 0.36\<rparr>]"
  have a: "(0::real) \<le> 0.18" and b: "(0::real) \<le> 0.11" by simp_all
  have c: "\<forall>b \<in> set ?bands. 0 \<le> b_total b" by simp
  from buildMonotoneByPairs_nonneg[OF a b c, of 32]
  have "length (weightsTPC 32) = 32" "list_all (\<lambda>x. 0 \<le> x) (weightsTPC 32)"
    unfolding weightsTPC_def list_all_iff by simp_all
  then show ?thesis using a b by simp
qed

section \<open>The clamped band with a negative slope\<close>

lemma weightsReg_32_value:
  "weightsReg 32 =
     [1 / 5, 3 / 25, 2 / 25, 2 / 25, 1 / 15, 1 / 15, 1 / 30, 1 / 30,
      23 / 450, 23 / 450, 23 / 450, 23 / 450, 23 / 450, 23 / 450, 23 / 450, 23 / 450,
      0, 0, 0, 0, 0, 0, 0, 0, 0, 0, 0, 0, 0, 0, 0, 0]"
  by code_simp

text \<open>
  Claim C2, at the Regional schedule. The five schedules are asserted to sum to 1, to be
  non-increasing and to keep every band total (the self-tests of the source check exactly
  this). \<^verbatim>\<open>weightsReg(32)\<close> does not: the band 9--16 is clamped to the tail of the band
  5--8 (\<open>1/30\<close> per person), the solved slope is negative and is replaced by 0 while the
  intercept keeps its value, so every rank of the band gets \<open>23/450\<close>. The band sums to
  \<open>92/225\<close> instead of \<open>0.32\<close>, the whole schedule to \<open>49/45\<close> instead of 1, and rank 9
  outweighs rank 8.
\<close>

theorem weightsReg_32_breaks_schedule:
  "sum_list (weightsReg 32) = 49 / 45
   \<and> rangeSum (weightsReg 32) 9 16 = 92 / 225
   \<and> weightsReg 32 ! 7 = 1 / 30 \<and> weightsReg 32 ! 8 = 23 / 450
   \<and> nonIncreasing (weightsReg 32) (1 / 10 ^ 9) = False"
  unfolding weightsReg_32_value by (simp add: rangeSum_def)

lemma tpc_32_value:
  "buildMonotoneByPairs 32 0.18 0.11
        [\<lparr>b_start = 3, b_end = 4, b_total = 0.16\<rparr>,
         \<lparr>b_start = 5, b_end = 8, b_total = 0.19\<rparr>,
         \<lparr>b_start = 9, b_end = 16, b_total = 0.36\<rparr>] =
     [9 / 50, 11 / 100, 2 / 25, 2 / 25, 19 / 300, 19 / 300, 19 / 600, 19 / 600,
      121 / 1800, 121 / 1800, 121 / 1800, 121 / 1800, 121 / 1800, 121 / 1800, 121 / 1800,
      121 / 1800, 0, 0, 0, 0, 0, 0, 0, 0, 0, 0, 0, 0, 0, 0, 0, 0]"
  by code_simp

text \<open>
  Claim C3, at the call that \<^verbatim>\<open>weightsTPC(32)\<close> makes. The declared masses add up to 1
  and every band is even and inside \<open>1..32\<close>. Band 9--16 is clamped to the tail of band
  5--8 (\<open>19/600\<close> per person), the solved slope is negative and is floored to 0 while the
  intercept keeps the value solved for that slope: every rank of the band gets
  \<open>121/1800\<close>, the band holds \<open>121/225\<close> instead of \<open>0.36\<close> and the weights sum to
  \<open>53/45\<close> instead of 1. Every weight is non-negative, as the claim says.
\<close>

theorem buildMonotoneByPairs_negative_slope_sum:
  "(0.18 + 0.11 + 0.16 + 0.19 + 0.36 :: real) = 1
   \<and> buildMonotoneByPairs 32 0.18 0.11
        [\<lparr>b_start = 3, b_end = 4, b_total = 0.16\<rparr>,
         \<lparr>b_start = 5, b_end = 8, b_total = 0.19\<rparr>,
         \<lparr>b_start = 9, b_end = 16, b_total = 0.36\<rparr>] =
     [9 / 50, 11 / 100, 2 / 25, 2 / 25, 19 / 300, 19 / 300, 19 / 600, 19 / 600,
      121 / 1800, 121 / 1800, 121 / 1800, 121 / 1800, 121 / 1800, 121 / 1800, 121 / 1800,
      121 / 1800, 0, 0, 0, 0, 0, 0, 0, 0, 0, 0, 0, 0, 0, 0, 0, 0]
   \<and> sum_list (buildMonotoneByPairs 32 0.18 0.11
        [\<lparr>b_start = 3, b_end = 4, b_total = 0.16\<rparr>,
         \<lparr>b_start = 5, b_end = 8, b_total = 0.19\<rparr>,
         \<lparr>b_start = 9, b_end = 16, b_total = 0.36\<rparr>]) = 53 / 45
   \<and> rangeSum (buildMonotoneByPairs 32 0.18 0.11
        [\<lparr>b_start = 3, b_end = 4, b_total = 0.16\<rparr>,
         \<lparr>b_start = 5, b_end = 8, b_total = 0.19\<rparr>,
         \<lparr>b_start = 9, b_end = 16, b_total = 0.36\<rparr>]) 9 16 = 121 / 225"
  unfolding tpc_32_value by (simp add: rangeSum_def)

section \<open>Decay\<close>

lemma decay_twice_aux:
  fixes c f1 f2 :: real
  assumes "0 \<le> f1" "0 \<le> f2"
  shows "max 0 (max 0 (c * f1) * f2) = max 0 (c * (f1 * f2))"
proof (cases "0 \<le> c * f1")
  case True
  then show ?thesis by (simp add: max_def mult.assoc)
next
  case False
  then have neg: "c * f1 < 0" by simp
  have "c * f1 * f2 \<le> 0" using neg assms(2) by (simp add: mult_nonpos_nonneg)
  then show ?thesis using neg by (simp add: max_def mult.assoc)
qed

lemma clamp_factor_bounds:
  fixes p :: real
  shows "0 \<le> 1 - max 0 (min 100 p) / 100" and "1 - max 0 (min 100 p) / 100 \<le> 1"
  by (simp_all add: max_def min_def)

text \<open>
  Claim C7. A decay sets every balance to \<open>max 0 (old * (1 - p/100))\<close> for the clamped
  percentage \<open>p\<close> and leaves ids and skills alone; two decays in a row leave the roster
  that one decay at the combined percentage \<open>100 * (1 - (1 - p1/100) * (1 - p2/100))\<close>
  leaves, \<open>p1\<close> and \<open>p2\<close> being the clamped percentages.
\<close>

theorem decayAll_balance_and_composition:
  "map chips (st_players (decayAll ps st)) =
     map (\<lambda>p. max 0 (chips p * (1 - max 0 (min 100 (decay_pct ps)) / 100))) (st_players st)
   \<and> map skill (st_players (decayAll ps st)) = map skill (st_players st)
   \<and> map p_id (st_players (decayAll ps st)) = map p_id (st_players st)
   \<and> st_players (decayAll ps2 (decayAll ps1 st)) =
       st_players (decayAll
         (ps1\<lparr>decay_pct := 100 * (1 - (1 - max 0 (min 100 (decay_pct ps1)) / 100)
                                      * (1 - max 0 (min 100 (decay_pct ps2)) / 100))\<rparr>) st)"
proof -
  define f1 where "f1 = 1 - max 0 (min 100 (decay_pct ps1)) / 100"
  define f2 where "f2 = 1 - max 0 (min 100 (decay_pct ps2)) / 100"
  have b1: "0 \<le> f1" "f1 \<le> 1" and b2: "0 \<le> f2" "f2 \<le> 1"
    unfolding f1_def f2_def by (rule clamp_factor_bounds)+
  have prod: "0 \<le> f1 * f2" "f1 * f2 \<le> 1"
    using b1 b2 by (simp_all add: mult_le_one)
  define q where "q = 100 * (1 - f1 * f2)"
  have clamp: "max 0 (min 100 q) = q"
    using prod by (simp add: q_def max_def min_def)
  have comb: "1 - max 0 (min 100 q) / 100 = f1 * f2"
    unfolding clamp by (simp add: q_def field_simps)
  have two: "st_players (decayAll ps2 (decayAll ps1 st)) =
      map (\<lambda>p. p\<lparr>chips := max 0 (max 0 (chips p * f1) * f2)\<rparr>) (st_players st)"
    by (simp add: decayAll_def Let_def f1_def f2_def comp_def)
  have one: "st_players (decayAll (ps1\<lparr>decay_pct := q\<rparr>) st) =
      map (\<lambda>p. p\<lparr>chips := max 0 (chips p * (f1 * f2))\<rparr>) (st_players st)"
    by (simp add: decayAll_def Let_def comb)
  have "st_players (decayAll ps2 (decayAll ps1 st)) =
        st_players (decayAll (ps1\<lparr>decay_pct := q\<rparr>) st)"
    unfolding two one using decay_twice_aux[OF b1(1) b2(1)] by simp
  then have last: "st_players (decayAll ps2 (decayAll ps1 st)) =
       st_players (decayAll
         (ps1\<lparr>decay_pct := 100 * (1 - (1 - max 0 (min 100 (decay_pct ps1)) / 100)
                                      * (1 - max 0 (min 100 (decay_pct ps2)) / 100))\<rparr>) st)"
    unfolding q_def f1_def f2_def .
  have first: "map chips (st_players (decayAll ps st)) =
     map (\<lambda>p. max 0 (chips p * (1 - max 0 (min 100 (decay_pct ps)) / 100))) (st_players st)"
    by (simp add: decayAll_def Let_def comp_def)
  have second: "map skill (st_players (decayAll ps st)) = map skill (st_players st)"
    by (simp add: decayAll_def Let_def comp_def)
  have third: "map p_id (st_players (decayAll ps st)) = map p_id (st_players st)"
    by (simp add: decayAll_def Let_def comp_def)
  show ?thesis using first second third last by blast
qed

section \<open>Worlds without a Regional\<close>

text \<open>
  Claim C5. With no Regional record in the history, \<^verbatim>\<open>runWorlds\<close> returns at its guard:
  the state (roster, stage and history) is the one it was given.
\<close>

theorem runWorlds_without_regional_noop:
  assumes "\<forall>e \<in> set (st_history st). \<not> isRegional e"
  shows "runWorlds ps noise st = Inr st"
proof -
  have "find isRegional (rev (st_history st)) = None"
    using assms by (simp add: find_None_iff)
  then show ?thesis by (simp add: runWorlds_def)
qed

theorem runWorlds_without_regional_noop_witness:
  "\<not> isRegional (DecayEvent (9/10) 10) \<and> \<not> isRegional (WorldsEvent [] [] [] [] [] 0)
   \<and> runWorlds \<lparr>z_world = 3, y_world = 400, decay_pct = 10\<rparr> (\<lambda>j. 0)
        \<lparr>st_players = [\<lparr>p_id = 0, skill = 1, chips = 100\<rparr>], st_stage = ''decay'',
         st_history = [DecayEvent (9/10) 10, WorldsEvent [] [] [] [] [] 0]\<rparr>
       = Inr \<lparr>st_players = [\<lparr>p_id = 0, skill = 1, chips = 100\<rparr>], st_stage = ''decay'',
         st_history = [DecayEvent (9/10) 10, WorldsEvent [] [] [] [] [] 0]\<rparr>"
proof -
  have h: "\<forall>e \<in> set (st_history \<lparr>st_players = [\<lparr>p_id = 0, skill = 1, chips = 100\<rparr>], st_stage = ''decay'',
         st_history = [DecayEvent (9/10) 10, WorldsEvent [] [] [] [] [] 0]\<rparr>). \<not> isRegional e"
    by simp
  show ?thesis
    using runWorlds_without_regional_noop[OF h] by simp
qed

section \<open>Facts about the settlement\<close>

lemma findIndex_None: "r \<notin> set xs \<Longrightarrow> findIndex (\<lambda>x. x = r) xs = None"
  by (induction xs) auto

lemma findIndex_Some:
  "r \<in> set xs \<Longrightarrow> \<exists>i. findIndex (\<lambda>x. x = r) xs = Some i \<and> i < length xs \<and> xs ! i = r"
  by (induction xs) auto

lemma list_update_as_map:
  assumes "distinct ranks" "i < length ranks" "length xs = length ranks"
  shows "xs[i := v] = map (\<lambda>j. if ranks ! j = ranks ! i then v else xs ! j) [0..<length ranks]"
proof (rule nth_equalityI)
  show "length (xs[i := v]) = length (map (\<lambda>j. if ranks ! j = ranks ! i then v else xs ! j) [0..<length ranks])"
    using assms(3) by simp
next
  fix j assume "j < length (xs[i := v])"
  then have j: "j < length ranks" using assms(3) by simp
  have "ranks ! j = ranks ! i \<longleftrightarrow> j = i"
    using assms(1,2) j by (simp add: nth_eq_iff_index_eq)
  then show "xs[i := v] ! j = map (\<lambda>j. if ranks ! j = ranks ! i then v else xs ! j) [0..<length ranks] ! j"
    using j assms(3) by (simp add: nth_list_update)
qed

lemma unchanged_as_map:
  assumes "r \<notin> set ranks" "length xs = length ranks"
  shows "xs = map (\<lambda>j. if ranks ! j = r then v else xs ! j) [0..<length ranks]"
proof (rule nth_equalityI)
  show "length xs = length (map (\<lambda>j. if ranks ! j = r then v else xs ! j) [0..<length ranks])"
    using assms(2) by simp
next
  fix j assume "j < length xs"
  then have j: "j < length ranks" using assms(2) by simp
  then have "ranks ! j \<noteq> r" using assms(1) by auto
  then show "xs ! j = map (\<lambda>j. if ranks ! j = r then v else xs ! j) [0..<length ranks] ! j"
    using j by simp
qed

lemma payStepK_as_map:
  assumes "distinct ranks"
    and "length payouts = length ranks" "length sharePool = length ranks" "length fixedY = length ranks"
  shows "payStepK N pool y weights g K ranks r (payouts, sharePool, fixedY) =
    (map (\<lambda>j. if ranks ! j = r then weightOfRank weights r * pool + fixedOfRank N y g K r else payouts ! j)
       [0..<length ranks],
     map (\<lambda>j. if ranks ! j = r then weightOfRank weights r * pool else sharePool ! j) [0..<length ranks],
     map (\<lambda>j. if ranks ! j = r then fixedOfRank N y g K r else fixedY ! j) [0..<length ranks])"
proof (cases "r \<in> set ranks")
  case False
  have res: "payStepK N pool y weights g K ranks r (payouts, sharePool, fixedY)
             = (payouts, sharePool, fixedY)"
    by (simp add: payStepK_def Let_def findIndex_None[OF False])
  show ?thesis
    unfolding res
    by (intro iffD2[OF prod.inject] conjI unchanged_as_map[OF False assms(2)]
          unchanged_as_map[OF False assms(3)] unchanged_as_map[OF False assms(4)])
next
  case True
  from findIndex_Some[OF True]
  obtain i where i: "findIndex (\<lambda>x. x = r) ranks = Some i" "i < length ranks" "ranks ! i = r"
    by (elim exE conjE)
  have res: "payStepK N pool y weights g K ranks r (payouts, sharePool, fixedY)
             = (payouts[i := weightOfRank weights r * pool + fixedOfRank N y g K r],
                sharePool[i := weightOfRank weights r * pool],
                fixedY[i := fixedOfRank N y g K r])"
    by (simp add: payStepK_def Let_def i(1))
  show ?thesis
    unfolding res
    by (intro iffD2[OF prod.inject] conjI
          list_update_as_map[OF assms(1) i(2) assms(2), unfolded i(3)]
          list_update_as_map[OF assms(1) i(2) assms(3), unfolded i(3)]
          list_update_as_map[OF assms(1) i(2) assms(4), unfolded i(3)])
qed

lemma step_map_merge:
  "map (\<lambda>j. if ranks ! j \<in> set rs then G (ranks ! j)
             else (map (\<lambda>j. if ranks ! j = r then G r else xs ! j) [0..<n]) ! j) [0..<n]
   = map (\<lambda>j. if ranks ! j \<in> set (r # rs) then G (ranks ! j) else xs ! j) [0..<n]"
proof (rule map_cong[OF refl])
  fix j assume "j \<in> set [0..<n]"
  then have j: "j < n" by simp
  have inner: "(map (\<lambda>j. if ranks ! j = r then G r else xs ! j) [0..<n]) ! j
               = (if ranks ! j = r then G r else xs ! j)"
    using j by (simp only: nth_map_upt add_0 minus_nat.diff_0)
  show "(if ranks ! j \<in> set rs then G (ranks ! j)
         else (map (\<lambda>j. if ranks ! j = r then G r else xs ! j) [0..<n]) ! j)
        = (if ranks ! j \<in> set (r # rs) then G (ranks ! j) else xs ! j)"
  proof (cases "ranks ! j = r")
    case True
    then show ?thesis unfolding inner by (simp only: list.set insert_iff simp_thms if_True if_cancel)
  next
    case False
    then show ?thesis unfolding inner by (simp only: list.set insert_iff simp_thms if_False)
  qed
qed

lemma fold_payStepK_as_map:
  assumes "distinct ranks"
    and "length payouts = length ranks" "length sharePool = length ranks" "length fixedY = length ranks"
  shows "fold (payStepK N pool y weights g K ranks) rs (payouts, sharePool, fixedY) =
    (map (\<lambda>j. if ranks ! j \<in> set rs
               then weightOfRank weights (ranks ! j) * pool + fixedOfRank N y g K (ranks ! j)
               else payouts ! j) [0..<length ranks],
     map (\<lambda>j. if ranks ! j \<in> set rs then weightOfRank weights (ranks ! j) * pool else sharePool ! j)
       [0..<length ranks],
     map (\<lambda>j. if ranks ! j \<in> set rs then fixedOfRank N y g K (ranks ! j) else fixedY ! j)
       [0..<length ranks])"
  using assms(2-4)
proof (induction rs arbitrary: payouts sharePool fixedY)
  case Nil
  have "map (\<lambda>j. payouts ! j) [0..<length payouts] = payouts"
       "map (\<lambda>j. sharePool ! j) [0..<length sharePool] = sharePool"
       "map (\<lambda>j. fixedY ! j) [0..<length fixedY] = fixedY"
    by (rule map_nth)+
  then show ?case
    unfolding Nil by (simp only: fold_Nil id_apply list.set empty_iff if_False)
next
  case (Cons r rs)
  let ?n = "length ranks"
  let ?P = "map (\<lambda>j. if ranks ! j = r then weightOfRank weights r * pool + fixedOfRank N y g K r else payouts ! j) [0..<?n]"
  let ?S = "map (\<lambda>j. if ranks ! j = r then weightOfRank weights r * pool else sharePool ! j) [0..<?n]"
  let ?F = "map (\<lambda>j. if ranks ! j = r then fixedOfRank N y g K r else fixedY ! j) [0..<?n]"
  have step: "payStepK N pool y weights g K ranks r (payouts, sharePool, fixedY) = (?P, ?S, ?F)"
    by (rule payStepK_as_map[OF assms(1) Cons.prems])
  have lens: "length ?P = ?n" "length ?S = ?n" "length ?F = ?n"
    by (simp_all only: length_map length_upt minus_nat.diff_0)
  note IH = Cons.IH[OF lens]
  have "fold (payStepK N pool y weights g K ranks) (r # rs) (payouts, sharePool, fixedY)
        = fold (payStepK N pool y weights g K ranks) rs (?P, ?S, ?F)"
    by (simp only: fold_Cons o_apply step)
  also note IH
  finally show ?case
    unfolding step_map_merge[of ranks rs "\<lambda>r. weightOfRank weights r * pool + fixedOfRank N y g K r" r payouts ?n]
      step_map_merge[of ranks rs "\<lambda>r. weightOfRank weights r * pool" r sharePool ?n]
      step_map_merge[of ranks rs "\<lambda>r. fixedOfRank N y g K r" r fixedY ?n] .
qed

lemma foldl_plus_sum_list: "foldl (+) a xs = a + sum_list (xs::real list)"
  by (induction xs arbitrary: a) simp_all

lemma map_nth_ranks: "map (\<lambda>j. G (ranks ! j)) [0..<length ranks] = map G ranks"
  by (rule nth_equalityI) simp_all

lemma fold_payStepK_ranks:
  assumes "distinct ranks" "set ranks \<subseteq> set rs"
  shows "fold (payStepK N pool y weights g K ranks) rs
           (replicate (length ranks) 0, replicate (length ranks) 0, replicate (length ranks) 0) =
     (map (\<lambda>r. weightOfRank weights r * pool + fixedOfRank N y g K r) ranks,
      map (\<lambda>r. weightOfRank weights r * pool) ranks,
      map (fixedOfRank N y g K) ranks)"
proof -
  have mem: "ranks ! j \<in> set rs" if "j \<in> set [0..<length ranks]" for j
    using that assms(2) by auto
  have simp_map: "map (\<lambda>j. if ranks ! j \<in> set rs then G (ranks ! j) else (replicate (length ranks) 0 ! j))
                    [0..<length ranks] = map G ranks" for G :: "nat \<Rightarrow> real"
  proof -
    have "map (\<lambda>j. if ranks ! j \<in> set rs then G (ranks ! j) else (replicate (length ranks) 0 ! j))
            [0..<length ranks] = map (\<lambda>j. G (ranks ! j)) [0..<length ranks]"
      by (rule map_cong[OF refl]) (simp only: mem if_True)
    then show ?thesis by (simp only: map_nth_ranks)
  qed
  have lens: "length (replicate (length ranks) (0::real)) = length ranks" by simp
  show ?thesis
    unfolding fold_payStepK_as_map[OF assms(1) lens lens lens]
    using simp_map[of "\<lambda>r. weightOfRank weights r * pool + fixedOfRank N y g K r"]
      simp_map[of "\<lambda>r. weightOfRank weights r * pool"]
      simp_map[of "fixedOfRank N y g K"]
    by (simp only: )
qed

lemma tierRunK_result:
  fixes players :: "player list" and playersIdx :: "nat list" and noise :: "nat \<Rightarrow> real"
    and z y :: real and weights :: "real list" and g :: bool and K :: "int option"
  assumes valid: "list_all (\<lambda>pi. pi < length players) playersIdx"
  defines "N \<equiv> length playersIdx"
  defines "perf \<equiv> map (\<lambda>(pi, j). skill (players ! pi) + noise j) (zip playersIdx [0..<N])"
  defines "ranks \<equiv> snd (rankBy perf)"
  defines "fees \<equiv> map (\<lambda>pi. chips (players ! pi) / z) playersIdx"
  defines "pool \<equiv> sum_list fees"
  defines "payouts \<equiv> map (\<lambda>r. weightOfRank weights r * pool + fixedOfRank N y g K r) ranks"
  defines "deltas \<equiv> map (\<lambda>j. payouts ! j - fees ! j) [0..<N]"
  shows "tierRunK playersIdx players z y weights g K noise =
     Inr (applyDeltas playersIdx deltas players,
          \<lparr>r_order = fst (rankBy perf), r_ranks = ranks, r_deltas = deltas, r_pool = pool,
           r_fees = fees, r_payouts = payouts,
           r_sharePool = map (\<lambda>r. weightOfRank weights r * pool) ranks,
           r_fixedY = map (fixedOfRank N y g K) ranks\<rparr>)"
proof -
  have plen: "length perf = N" by (simp add: perf_def N_def)
  have rlen: "length ranks = N" by (simp add: ranks_def rankBy_ranks_of_order(1) plen)
  have rd: "distinct ranks" by (simp add: ranks_def rankBy_ranks_facts(1))
  have rs: "set ranks \<subseteq> set [1..<Suc N]"
    unfolding ranks_def rankBy_ranks_facts(2) plen by auto
  have pool': "foldl (+) 0 fees = pool" by (simp add: pool_def foldl_plus_sum_list)
  have loop: "fold (payStepK N pool y weights g K ranks) [1..<Suc N]
           (replicate N 0, replicate N 0, replicate N 0) =
     (payouts, map (\<lambda>r. weightOfRank weights r * pool) ranks, map (fixedOfRank N y g K) ranks)"
    using fold_payStepK_ranks[OF rd rs, of N pool y weights g K] unfolding rlen payouts_def .
  have len_payouts: "length payouts = N" by (simp add: payouts_def rlen)
  have rk: "rankBy perf = (fst (rankBy perf), ranks)" by (simp add: ranks_def)
  show ?thesis
    unfolding tierRunK_def Let_def
    apply (simp only: valid not_True_eq_False if_False)
    apply (fold N_def)
    apply (fold perf_def)
    apply (fold fees_def)
    apply (subst rk)
    apply (simp only: split_conv pool' loop len_payouts)
    apply (fold deltas_def)
    apply (rule refl)
    done
qed

lemma ceilHalf_eq: "ceilHalf N = (N + 1) div 2"
  unfolding ceilHalf_def by linarith

lemma payStep_eq: "payStep N pool y weights g ranks = payStepK N pool y weights g None ranks"
  by (intro ext) (simp add: payStep_def payStepK_def fixedOfRank_def Let_def split: prod.splits)

lemma tierRun_eq:
  "tierRun playersIdx players z y weights g noise =
   tierRunK playersIdx players z y weights g None noise"
  by (simp only: tierRun_def tierRunK_def payStep_eq)

lemma fixedOfRank_policy:
  "fixedOfRank N y (policyFlag pol) (policyK pol) r = (if eligible pol N r then y else 0)"
  by (cases pol) (simp_all add: fixedOfRank_def)

lemma count_le_upt: "length (filter (\<lambda>r. r \<le> c) [1..<Suc N]) = min N c"
  by (induction N) auto

lemma eligible_count:
  "length (filter (eligible pol N) [1..<Suc N]) = eligibleCount pol N"
proof (cases pol)
  case AllRanks
  have "eligible AllRanks N = (\<lambda>r. True)" by (intro ext) simp
  then show ?thesis
    unfolding AllRanks by (simp only: filter_True eligibleCount.simps length_upt) simp
next
  case TopHalf
  have le: "ceilHalf N \<le> N" by (simp add: ceilHalf_eq)
  have "eligible TopHalf N = (\<lambda>r. r \<le> ceilHalf N)" by (intro ext) simp
  then show ?thesis
    unfolding TopHalf by (simp only: count_le_upt eligibleCount.simps min_absorb2[OF le])
next
  case (TopK k)
  have "filter (\<lambda>r. int r \<le> k) [1..<Suc N] = filter (\<lambda>r. r \<le> nat k) [1..<Suc N]"
    by (rule filter_cong[OF refl]) auto
  moreover have "eligible (TopK k) N = (\<lambda>r. int r \<le> k)" by (intro ext) simp
  ultimately show ?thesis
    unfolding TopK by (simp only: count_le_upt eligibleCount.simps)
qed

lemma sum_list_if_filter:
  "sum_list (map (\<lambda>r. if P r then (y::real) else 0) xs) = y * real (length (filter P xs))"
  by (induction xs) (simp_all add: algebra_simps)

lemma sum_weightOfRank: "sum_list (map (weightOfRank weights) [1..<Suc N]) = sum_list (take N weights)"
proof (induction N)
  case 0
  then show ?case by simp
next
  case (Suc N)
  have "sum_list (take (Suc N) weights) = sum_list (take N weights) + weightOfRank weights (Suc N)"
    by (cases "N < length weights") (simp_all add: take_Suc_conv_app_nth weightOfRank_def)
  then show ?case using Suc by simp
qed

lemma sum_list_perm_map:
  assumes "mset xs = mset ys"
  shows "sum_list (map f xs) = sum_list (map (f :: nat \<Rightarrow> real) ys)"
proof -
  have "sum_list (map f xs) = sum_mset (image_mset f (mset xs))"
    by (simp only: sum_mset_sum_list[symmetric] mset_map)
  also have "\<dots> = sum_mset (image_mset f (mset ys))" by (simp only: assms)
  also have "\<dots> = sum_list (map f ys)" by (simp only: sum_mset_sum_list[symmetric] mset_map)
  finally show ?thesis .
qed

lemma length_filter_perm:
  assumes "mset xs = mset ys"
  shows "length (filter P xs) = length (filter P ys)"
proof -
  have "mset (filter P xs) = mset (filter P ys)" by (simp only: mset_filter assms)
  then show ?thesis by (rule mset_eq_length)
qed

lemma sum_list_diff_nth:
  assumes "length a = n" "length b = n"
  shows "sum_list (map (\<lambda>j. a ! j - b ! j) [0..<n]) = sum_list a - sum_list (b :: real list)"
proof -
  have "sum_list (map (\<lambda>j. a ! j - b ! j) [0..<n])
        = sum_list (map (\<lambda>j. a ! j) [0..<n]) - sum_list (map (\<lambda>j. b ! j) [0..<n])"
    by (rule sum_list_subtractf)
  then show ?thesis using assms map_nth[of a] map_nth[of b] by simp
qed

lemma tierRunK_ranks_perm:
  fixes players :: "player list" and playersIdx :: "nat list" and noise :: "nat \<Rightarrow> real"
  defines "perf \<equiv> map (\<lambda>(pi, j). skill (players ! pi) + noise j) (zip playersIdx [0..<length playersIdx])"
  shows "mset (snd (rankBy perf)) = mset [1..<Suc (length playersIdx)]"
    and "length (snd (rankBy perf)) = length playersIdx"
    and "length (fst (rankBy perf)) = length playersIdx"
proof -
  have plen: "length perf = length playersIdx" by (simp add: perf_def)
  show "mset (snd (rankBy perf)) = mset [1..<Suc (length playersIdx)]"
    using rankBy_ranks_perm[of perf] unfolding plen .
  show "length (snd (rankBy perf)) = length playersIdx"
    using rankBy_ranks_of_order(1)[of perf] unfolding plen .
  show "length (fst (rankBy perf)) = length playersIdx"
    using rankBy_order_facts(1)[of perf] unfolding plen .
qed

lemma applyDeltas_length: "length (applyDeltas playersIdx deltas players) = length players"
proof -
  have "length (fold (\<lambda>(pi, j) ps. ps[pi := (ps ! pi)\<lparr>chips := chips (ps ! pi) + deltas ! j\<rparr>]) xs ps)
        = length ps" for xs :: "(nat \<times> nat) list" and ps :: "player list"
    by (induction xs arbitrary: ps) (simp_all add: split_beta)
  then show ?thesis by (simp only: applyDeltas_def)
qed

lemma tierRunK_empty:
  "tierRunK [] players z y weights g K noise =
     Inr (players, \<lparr>r_order = [], r_ranks = [], r_deltas = [], r_pool = 0, r_fees = [],
                    r_payouts = [], r_sharePool = [], r_fixedY = []\<rparr>)"
  by (simp add: tierRunK_def rankBy_def applyDeltas_def)

lemma tierRunK_fields:
  fixes players :: "player list" and playersIdx :: "nat list" and noise :: "nat \<Rightarrow> real"
    and z y :: real and weights :: "real list" and g :: bool and K :: "int option"
  assumes valid: "list_all (\<lambda>pi. pi < length players) playersIdx"
  shows "\<exists>players' res.
     tierRunK playersIdx players z y weights g K noise = Inr (players', res)
     \<and> players' = applyDeltas playersIdx (r_deltas res) players
     \<and> r_ranks res = snd (rankBy (map (\<lambda>(pi, j). skill (players ! pi) + noise j)
                                  (zip playersIdx [0..<length playersIdx])))
     \<and> r_order res = fst (rankBy (map (\<lambda>(pi, j). skill (players ! pi) + noise j)
                                  (zip playersIdx [0..<length playersIdx])))
     \<and> r_fees res = map (\<lambda>pi. chips (players ! pi) / z) playersIdx
     \<and> r_pool res = sum_list (r_fees res)
     \<and> r_sharePool res = map (\<lambda>r. weightOfRank weights r * r_pool res) (r_ranks res)
     \<and> r_fixedY res = map (fixedOfRank (length playersIdx) y g K) (r_ranks res)
     \<and> r_payouts res = map (\<lambda>r. weightOfRank weights r * r_pool res
                                  + fixedOfRank (length playersIdx) y g K r) (r_ranks res)
     \<and> r_deltas res = map (\<lambda>j. r_payouts res ! j - r_fees res ! j) [0..<length playersIdx]"
  by (simp add: tierRunK_result[OF valid])

text \<open>
  Claim C9. A call with valid participant indices returns, its arrays (and the ranks and
  the order) have length exactly \<open>N\<close> and the roster keeps its length; a rank past the end
  of the weight vector gets the pool share 0; a call with no participants returns the
  roster as it was, empty arrays and pool 0. The same holds for the variant without
  \<^verbatim>\<open>fixedYTopK\<close>.
\<close>

theorem tierRun_total_on_edge_cases:
  fixes players :: "player list" and playersIdx :: "nat list" and noise :: "nat \<Rightarrow> real"
    and z y :: real and weights :: "real list" and g :: bool and K :: "int option"
  shows "(list_all (\<lambda>pi. pi < length players) playersIdx \<longrightarrow>
           (\<exists>players' res.
              tierRunK playersIdx players z y weights g K noise = Inr (players', res)
              \<and> tierRun playersIdx players z y weights g noise
                  = tierRunK playersIdx players z y weights g None noise
              \<and> length (r_fees res) = length playersIdx
              \<and> length (r_fixedY res) = length playersIdx
              \<and> length (r_sharePool res) = length playersIdx
              \<and> length (r_payouts res) = length playersIdx
              \<and> length (r_deltas res) = length playersIdx
              \<and> length (r_ranks res) = length playersIdx
              \<and> length (r_order res) = length playersIdx
              \<and> length players' = length players
              \<and> (\<forall>j < length playersIdx.
                    length weights < r_ranks res ! j \<longrightarrow> r_sharePool res ! j = 0)))
         \<and> tierRunK [] players z y weights g K noise =
             Inr (players, \<lparr>r_order = [], r_ranks = [], r_deltas = [], r_pool = 0, r_fees = [],
                            r_payouts = [], r_sharePool = [], r_fixedY = []\<rparr>)
         \<and> tierRun [] players z y weights g noise =
             Inr (players, \<lparr>r_order = [], r_ranks = [], r_deltas = [], r_pool = 0, r_fees = [],
                            r_payouts = [], r_sharePool = [], r_fixedY = []\<rparr>)"
proof (intro conjI impI)
  assume valid: "list_all (\<lambda>pi. pi < length players) playersIdx"
  from tierRunK_fields[OF valid, where noise = noise and z = z and y = y
      and weights = weights and g = g and K = K]
  obtain players' res where
    run: "tierRunK playersIdx players z y weights g K noise = Inr (players', res)"
    and pl: "players' = applyDeltas playersIdx (r_deltas res) players"
    and rk: "r_ranks res = snd (rankBy (map (\<lambda>(pi, j). skill (players ! pi) + noise j)
                                  (zip playersIdx [0..<length playersIdx])))"
    and od: "r_order res = fst (rankBy (map (\<lambda>(pi, j). skill (players ! pi) + noise j)
                                  (zip playersIdx [0..<length playersIdx])))"
    and fe: "r_fees res = map (\<lambda>pi. chips (players ! pi) / z) playersIdx"
    and sh: "r_sharePool res = map (\<lambda>r. weightOfRank weights r * r_pool res) (r_ranks res)"
    and fx: "r_fixedY res = map (fixedOfRank (length playersIdx) y g K) (r_ranks res)"
    and pa: "r_payouts res = map (\<lambda>r. weightOfRank weights r * r_pool res
                                  + fixedOfRank (length playersIdx) y g K r) (r_ranks res)"
    and de: "r_deltas res = map (\<lambda>j. r_payouts res ! j - r_fees res ! j) [0..<length playersIdx]"
    by blast
  have rlen: "length (r_ranks res) = length playersIdx"
    unfolding rk by (rule tierRunK_ranks_perm(2))
  have olen: "length (r_order res) = length playersIdx"
    unfolding od by (rule tierRunK_ranks_perm(3))
  have zero: "weightOfRank weights r * p = 0" if "length weights < r" for r p
  proof -
    have "\<not> (r - 1 < length weights)" using that by arith
    then have "weightOfRank weights r = 0" unfolding weightOfRank_def by (simp only: simp_thms if_False)
    then show ?thesis by simp
  qed
  have short: "\<forall>j < length playersIdx. length weights < r_ranks res ! j \<longrightarrow> r_sharePool res ! j = 0"
    unfolding sh using rlen by (simp add: zero)
  have lens: "length (r_fees res) = length playersIdx" "length (r_fixedY res) = length playersIdx"
    "length (r_sharePool res) = length playersIdx" "length (r_payouts res) = length playersIdx"
    "length (r_deltas res) = length playersIdx" "length players' = length players"
    using rlen by (simp_all add: fe fx sh pa de pl applyDeltas_length)
  show "\<exists>players' res.
              tierRunK playersIdx players z y weights g K noise = Inr (players', res)
              \<and> tierRun playersIdx players z y weights g noise
                  = tierRunK playersIdx players z y weights g None noise
              \<and> length (r_fees res) = length playersIdx
              \<and> length (r_fixedY res) = length playersIdx
              \<and> length (r_sharePool res) = length playersIdx
              \<and> length (r_payouts res) = length playersIdx
              \<and> length (r_deltas res) = length playersIdx
              \<and> length (r_ranks res) = length playersIdx
              \<and> length (r_order res) = length playersIdx
              \<and> length players' = length players
              \<and> (\<forall>j < length playersIdx.
                    length weights < r_ranks res ! j \<longrightarrow> r_sharePool res ! j = 0)"
    using run tierRun_eq[of playersIdx players z y weights g noise] lens rlen olen short
    by blast
next
  show "tierRunK [] players z y weights g K noise =
             Inr (players, \<lparr>r_order = [], r_ranks = [], r_deltas = [], r_pool = 0, r_fees = [],
                            r_payouts = [], r_sharePool = [], r_fixedY = []\<rparr>)"
    by (rule tierRunK_empty)
next
  show "tierRun [] players z y weights g noise =
             Inr (players, \<lparr>r_order = [], r_ranks = [], r_deltas = [], r_pool = 0, r_fees = [],
                            r_payouts = [], r_sharePool = [], r_fixedY = []\<rparr>)"
    unfolding tierRun_eq by (rule tierRunK_empty)
qed

theorem tierRun_total_on_edge_cases_witness:
  "list_all (\<lambda>pi. pi < length [\<lparr>p_id = 0, skill = 1, chips = 100\<rparr>,
        \<lparr>p_id = 1, skill = 2, chips = 100\<rparr>, \<lparr>p_id = 2, skill = 3, chips = 100\<rparr>]) [0, 1, 2]
   \<and> length (r_sharePool (snd (projr (tierRunK [0, 1, 2]
        [\<lparr>p_id = 0, skill = 1, chips = 100\<rparr>, \<lparr>p_id = 1, skill = 2, chips = 100\<rparr>,
         \<lparr>p_id = 2, skill = 3, chips = 100\<rparr>] 10 50 [1] False None (\<lambda>j. 0))))) = 3
   \<and> r_sharePool (snd (projr (tierRunK [0, 1, 2]
        [\<lparr>p_id = 0, skill = 1, chips = 100\<rparr>, \<lparr>p_id = 1, skill = 2, chips = 100\<rparr>,
         \<lparr>p_id = 2, skill = 3, chips = 100\<rparr>] 10 50 [1] False None (\<lambda>j. 0)))) = [0, 0, 30]"
proof -
  let ?P = "[\<lparr>p_id = 0, skill = 1, chips = 100\<rparr>, \<lparr>p_id = 1, skill = 2, chips = 100\<rparr>,
         \<lparr>p_id = 2, skill = 3, chips = 100\<rparr>]"
  have v: "list_all (\<lambda>pi. pi < length ?P) [0, 1, 2]" by simp
  from tierRun_total_on_edge_cases[of ?P "[0, 1, 2]" 10 50 "[1]" False None "\<lambda>j. 0"] v
  obtain players' res where
    "tierRunK [0, 1, 2] ?P 10 50 [1] False None (\<lambda>j. 0) = Inr (players', res)"
    "length (r_sharePool res) = length [0::nat, 1, 2]"
    by blast
  then have "length (r_sharePool (snd (projr (tierRunK [0, 1, 2] ?P 10 50 [1] False None (\<lambda>j. 0))))) = 3"
    by simp
  moreover have "r_sharePool (snd (projr (tierRunK [0, 1, 2] ?P 10 50 [1] False None (\<lambda>j. 0))))
                 = [0, 0, 30]"
    by code_simp
  ultimately show ?thesis using v by blast
qed

lemma fixedOfRank_positive:
  "0 < y \<Longrightarrow> (0 < fixedOfRank N y (policyFlag pol) (policyK pol) r) = eligible pol N r"
  by (simp add: fixedOfRank_policy)

lemma count_positive_fixed:
  assumes "0 < y" and "mset ranks = mset [1..<Suc N]"
  shows "length (filter (\<lambda>v. 0 < v) (map (fixedOfRank N y (policyFlag pol) (policyK pol)) ranks))
         = eligibleCount pol N"
proof -
  have "length (filter (\<lambda>v. 0 < v) (map (fixedOfRank N y (policyFlag pol) (policyK pol)) ranks))
        = length (filter (\<lambda>r. 0 < fixedOfRank N y (policyFlag pol) (policyK pol) r) ranks)"
    by (simp only: filter_map length_map o_def)
  also have "\<dots> = length (filter (eligible pol N) ranks)"
    by (simp only: fixedOfRank_positive[OF assms(1)])
  also have "\<dots> = length (filter (eligible pol N) [1..<Suc N])"
    by (rule length_filter_perm[OF assms(2)])
  also have "\<dots> = eligibleCount pol N" by (rule eligible_count)
  finally show ?thesis .
qed

text \<open>
  Claim C4, as amended. For a call with valid participant indices the recorded fixed
  bonus of a participant is \<open>y\<close> when the participant's rank is eligible under the policy
  and 0 otherwise, the ranks being a permutation of \<open>1..N\<close>; and when \<open>y > 0\<close> the number
  of participants with a positive recorded bonus is the eligible-rank count of the
  policy: \<open>N\<close> for all, \<open>ceil(N/2)\<close> for top-half, \<open>min N (max K 0)\<close> for top-K, which is
  \<open>K\<close> whenever \<open>0 \<le> K \<le> N\<close>.
\<close>

theorem fixed_bonus_goes_to_eligible_ranks:
  fixes players :: "player list" and playersIdx :: "nat list" and noise :: "nat \<Rightarrow> real"
    and z y :: real and weights :: "real list"
  assumes valid: "list_all (\<lambda>pi. pi < length players) playersIdx"
  shows "\<exists>players' res.
           tierRunK playersIdx players z y weights (policyFlag pol) (policyK pol) noise
             = Inr (players', res)
           \<and> mset (r_ranks res) = mset [1..<Suc (length playersIdx)]
           \<and> r_fixedY res
               = map (\<lambda>r. if eligible pol (length playersIdx) r then y else 0) (r_ranks res)
           \<and> (0 < y \<longrightarrow> length (filter (\<lambda>v. 0 < v) (r_fixedY res))
                          = eligibleCount pol (length playersIdx))
           \<and> (\<forall>k. 0 \<le> k \<and> k \<le> int (length playersIdx)
                  \<longrightarrow> eligibleCount (TopK k) (length playersIdx) = nat k)"
proof -
  from tierRunK_fields[OF valid, where noise = noise and z = z and y = y
      and weights = weights and g = "policyFlag pol" and K = "policyK pol"]
  obtain players' res where
    run: "tierRunK playersIdx players z y weights (policyFlag pol) (policyK pol) noise
            = Inr (players', res)"
    and rk: "r_ranks res = snd (rankBy (map (\<lambda>(pi, j). skill (players ! pi) + noise j)
                                  (zip playersIdx [0..<length playersIdx])))"
    and fx: "r_fixedY res
               = map (fixedOfRank (length playersIdx) y (policyFlag pol) (policyK pol)) (r_ranks res)"
    by blast
  have perm: "mset (r_ranks res) = mset [1..<Suc (length playersIdx)]"
    unfolding rk by (rule tierRunK_ranks_perm(1))
  have "fixedOfRank (length playersIdx) y (policyFlag pol) (policyK pol)
        = (\<lambda>r. if eligible pol (length playersIdx) r then y else 0)"
    by (intro ext) (rule fixedOfRank_policy)
  then have fx': "r_fixedY res
               = map (\<lambda>r. if eligible pol (length playersIdx) r then y else 0) (r_ranks res)"
    using fx by simp
  have cnt: "0 < y \<longrightarrow> length (filter (\<lambda>v. 0 < v) (r_fixedY res))
                          = eligibleCount pol (length playersIdx)"
    unfolding fx using count_positive_fixed[OF _ perm] by blast
  have topk: "\<forall>k. 0 \<le> k \<and> k \<le> int (length playersIdx)
                  \<longrightarrow> eligibleCount (TopK k) (length playersIdx) = nat k"
    by auto
  show ?thesis using run perm fx' cnt topk by blast
qed

theorem fixed_bonus_goes_to_eligible_ranks_witness:
  "list_all (\<lambda>pi. pi < length [\<lparr>p_id = 0, skill = 1, chips = 100\<rparr>,
        \<lparr>p_id = 1, skill = 2, chips = 100\<rparr>, \<lparr>p_id = 2, skill = 3, chips = 100\<rparr>]) [0, 1, 2]
   \<and> (0::real) < 50
   \<and> length (filter (\<lambda>v. 0 < v) (r_fixedY (snd (projr (tierRunK [0, 1, 2]
        [\<lparr>p_id = 0, skill = 1, chips = 100\<rparr>, \<lparr>p_id = 1, skill = 2, chips = 100\<rparr>,
         \<lparr>p_id = 2, skill = 3, chips = 100\<rparr>] 10 50 (weightsCup 3) True None (\<lambda>j. 0)))))) = 2"
proof -
  let ?P = "[\<lparr>p_id = 0, skill = 1, chips = 100\<rparr>, \<lparr>p_id = 1, skill = 2, chips = 100\<rparr>,
         \<lparr>p_id = 2, skill = 3, chips = 100\<rparr>]"
  have v: "list_all (\<lambda>pi. pi < length ?P) [0, 1, 2]" by simp
  have c: "ceilHalf (Suc (Suc (Suc 0))) = 2" by (simp add: ceilHalf_eq)
  from fixed_bonus_goes_to_eligible_ranks[OF v, of 10 50 "weightsCup 3" TopHalf "\<lambda>j. 0"]
  obtain players' res where
    "tierRunK [0, 1, 2] ?P 10 50 (weightsCup 3) True None (\<lambda>j. 0) = Inr (players', res)"
    "length (filter (\<lambda>v. 0 < v) (r_fixedY res)) = eligibleCount TopHalf (length [0::nat, 1, 2])"
    by auto
  then show ?thesis using v c by simp
qed

text \<open>
  The claim as stated fails where \<open>y = 0\<close> (the controls allow it): nobody has a positive
  recorded bonus although \<open>ceil(2/2) = 1\<close> rank is eligible; and where \<open>K\<close> exceeds the
  number of participants: with \<open>K = 32\<close> and two participants, two have the bonus.
\<close>

theorem fixed_bonus_count_counterexample:
  "length (filter (\<lambda>v. 0 < v) (r_fixedY (snd (projr (tierRunK [0, 1]
        [\<lparr>p_id = 0, skill = 1, chips = 100\<rparr>, \<lparr>p_id = 1, skill = 2, chips = 100\<rparr>]
        10 0 (weightsCup 2) True None (\<lambda>j. 0)))))) = 0
   \<and> ceilHalf 2 = 1
   \<and> length (filter (\<lambda>v. 0 < v) (r_fixedY (snd (projr (tierRunK [0, 1]
        [\<lparr>p_id = 0, skill = 1, chips = 100\<rparr>, \<lparr>p_id = 1, skill = 2, chips = 100\<rparr>]
        10 50 (weightsCup 2) True (Some 32) (\<lambda>j. 0)))))) = 2"
  by code_simp

text \<open>
  Claim C10. In the variant with \<^verbatim>\<open>fixedYTopK\<close>, for a call with valid participant indices:
  with \<^verbatim>\<open>giveYToTopHalf = false\<close> every participant's fixed bonus is \<open>y\<close> whatever
  \<^verbatim>\<open>fixedYTopK\<close> is; with \<^verbatim>\<open>giveYToTopHalf = true\<close> and \<^verbatim>\<open>fixedYTopK = K\<close> the bonus is \<open>y\<close>
  exactly for the ranks \<open>r \<le> K\<close> (the top-half bound plays no part), and without
  \<^verbatim>\<open>fixedYTopK\<close> exactly for the ranks \<open>r \<le> ceil(N/2)\<close>. The ranks are a permutation of
  \<open>1..N\<close>.
\<close>

theorem fixedYTopK_only_under_giveYToTopHalf:
  fixes players :: "player list" and playersIdx :: "nat list" and noise :: "nat \<Rightarrow> real"
    and z y :: real and weights :: "real list" and g :: bool and K :: "int option"
  assumes valid: "list_all (\<lambda>pi. pi < length players) playersIdx"
  shows "\<exists>players' res.
           tierRunK playersIdx players z y weights g K noise = Inr (players', res)
           \<and> mset (r_ranks res) = mset [1..<Suc (length playersIdx)]
           \<and> length (r_fixedY res) = length playersIdx
           \<and> (\<not> g \<longrightarrow> r_fixedY res = replicate (length playersIdx) y)
           \<and> (\<forall>k. g \<and> K = Some k \<longrightarrow>
                 r_fixedY res = map (\<lambda>r. if int r \<le> k then y else 0) (r_ranks res))
           \<and> (g \<and> K = None \<longrightarrow>
                 r_fixedY res = map (\<lambda>r. if r \<le> ceilHalf (length playersIdx) then y else 0)
                                  (r_ranks res))"
proof -
  from tierRunK_fields[OF valid, where noise = noise and z = z and y = y
      and weights = weights and g = g and K = K]
  obtain players' res where
    run: "tierRunK playersIdx players z y weights g K noise = Inr (players', res)"
    and rk: "r_ranks res = snd (rankBy (map (\<lambda>(pi, j). skill (players ! pi) + noise j)
                                  (zip playersIdx [0..<length playersIdx])))"
    and fx: "r_fixedY res = map (fixedOfRank (length playersIdx) y g K) (r_ranks res)"
    by blast
  have perm: "mset (r_ranks res) = mset [1..<Suc (length playersIdx)]"
    unfolding rk by (rule tierRunK_ranks_perm(1))
  have rlen: "length (r_ranks res) = length playersIdx"
    unfolding rk by (rule tierRunK_ranks_perm(2))
  have len: "length (r_fixedY res) = length playersIdx" by (simp add: fx rlen)
  have all: "r_fixedY res = replicate (length playersIdx) y" if "\<not> g"
  proof -
    have "fixedOfRank (length playersIdx) y g K = (\<lambda>r. y)"
      using that by (intro ext) (simp add: fixedOfRank_def)
    then show ?thesis unfolding fx by (simp add: map_replicate_const rlen)
  qed
  have topk: "r_fixedY res = map (\<lambda>r. if int r \<le> k then y else 0) (r_ranks res)"
    if "g" "K = Some k" for k
  proof -
    have "fixedOfRank (length playersIdx) y g K = (\<lambda>r. if int r \<le> k then y else 0)"
      using that by (intro ext) (simp add: fixedOfRank_def)
    then show ?thesis unfolding fx by simp
  qed
  have half: "r_fixedY res = map (\<lambda>r. if r \<le> ceilHalf (length playersIdx) then y else 0)
                                  (r_ranks res)"
    if "g" "K = None"
  proof -
    have "fixedOfRank (length playersIdx) y g K
          = (\<lambda>r. if r \<le> ceilHalf (length playersIdx) then y else 0)"
      using that by (intro ext) (simp add: fixedOfRank_def)
    then show ?thesis unfolding fx by simp
  qed
  show ?thesis using run perm len all topk half by blast
qed

theorem fixedYTopK_only_under_giveYToTopHalf_witness:
  "list_all (\<lambda>pi. pi < length [\<lparr>p_id = 0, skill = 4, chips = 100\<rparr>,
        \<lparr>p_id = 1, skill = 3, chips = 100\<rparr>, \<lparr>p_id = 2, skill = 2, chips = 100\<rparr>,
        \<lparr>p_id = 3, skill = 1, chips = 100\<rparr>]) [0, 1, 2, 3]
   \<and> r_fixedY (snd (projr (tierRunK [0, 1, 2, 3]
        [\<lparr>p_id = 0, skill = 4, chips = 100\<rparr>, \<lparr>p_id = 1, skill = 3, chips = 100\<rparr>,
         \<lparr>p_id = 2, skill = 2, chips = 100\<rparr>, \<lparr>p_id = 3, skill = 1, chips = 100\<rparr>]
        10 50 (weightsCup 4) False (Some 1) (\<lambda>j. 0)))) = [50, 50, 50, 50]
   \<and> r_fixedY (snd (projr (tierRunK [0, 1, 2, 3]
        [\<lparr>p_id = 0, skill = 4, chips = 100\<rparr>, \<lparr>p_id = 1, skill = 3, chips = 100\<rparr>,
         \<lparr>p_id = 2, skill = 2, chips = 100\<rparr>, \<lparr>p_id = 3, skill = 1, chips = 100\<rparr>]
        10 50 (weightsCup 4) True (Some 3) (\<lambda>j. 0)))) = [50, 50, 50, 0]"
proof -
  let ?P = "[\<lparr>p_id = 0, skill = 4, chips = 100\<rparr>, \<lparr>p_id = 1, skill = 3, chips = 100\<rparr>,
         \<lparr>p_id = 2, skill = 2, chips = 100\<rparr>, \<lparr>p_id = 3, skill = 1, chips = 100\<rparr>]"
  have v: "list_all (\<lambda>pi. pi < length ?P) [0, 1, 2, 3]" by simp
  from fixedYTopK_only_under_giveYToTopHalf[OF v, of 10 50 "weightsCup 4" False "Some 1" "\<lambda>j. 0"]
  obtain players' res where
    "tierRunK [0, 1, 2, 3] ?P 10 50 (weightsCup 4) False (Some 1) (\<lambda>j. 0) = Inr (players', res)"
    "r_fixedY res = replicate (length [0::nat, 1, 2, 3]) 50"
    by auto
  then have a: "r_fixedY (snd (projr (tierRunK [0, 1, 2, 3] ?P 10 50 (weightsCup 4) False (Some 1)
                  (\<lambda>j. 0)))) = [50, 50, 50, 50]"
    by simp
  have b: "r_fixedY (snd (projr (tierRunK [0, 1, 2, 3] ?P 10 50 (weightsCup 4) True (Some 3)
                  (\<lambda>j. 0)))) = [50, 50, 50, 0]"
    by code_simp
  show ?thesis using v a b by blast
qed

text \<open>
  Claim C1. For a call with valid participant indices, \<open>z > 0\<close>, a weight vector of at
  most \<open>N\<close> entries (the data model's vector has exactly \<open>N\<close>) that sums to 1 and any
  eligibility policy, the call returns and the net deltas sum to \<open>y\<close> times the number
  of eligible ranks, whatever the draws: fees and pool shares cancel.
\<close>

theorem tierRun_conservation:
  fixes players :: "player list" and playersIdx :: "nat list" and noise :: "nat \<Rightarrow> real"
    and z y :: real and weights :: "real list"
  assumes valid: "list_all (\<lambda>pi. pi < length players) playersIdx"
    and z: "0 < z"
    and wlen: "length weights \<le> length playersIdx"
    and wsum: "sum_list weights = 1"
  shows "\<exists>players' res.
           tierRunK playersIdx players z y weights (policyFlag pol) (policyK pol) noise
             = Inr (players', res)
           \<and> (policyK pol = None \<longrightarrow>
                 tierRun playersIdx players z y weights (policyFlag pol) noise
                   = Inr (players', res))
           \<and> sum_list (r_deltas res) = y * real (eligibleCount pol (length playersIdx))"
proof -
  let ?N = "length playersIdx"
  let ?g = "policyFlag pol" and ?K = "policyK pol"
  from tierRunK_fields[OF valid, where noise = noise and z = z and y = y
      and weights = weights and g = ?g and K = ?K]
  obtain players' res where
    run: "tierRunK playersIdx players z y weights ?g ?K noise = Inr (players', res)"
    and rk: "r_ranks res = snd (rankBy (map (\<lambda>(pi, j). skill (players ! pi) + noise j)
                                  (zip playersIdx [0..<length playersIdx])))"
    and fe: "r_fees res = map (\<lambda>pi. chips (players ! pi) / z) playersIdx"
    and po: "r_pool res = sum_list (r_fees res)"
    and pa: "r_payouts res = map (\<lambda>r. weightOfRank weights r * r_pool res
                                  + fixedOfRank ?N y ?g ?K r) (r_ranks res)"
    and de: "r_deltas res = map (\<lambda>j. r_payouts res ! j - r_fees res ! j) [0..<?N]"
    by blast
  have perm: "mset (r_ranks res) = mset [1..<Suc ?N]"
    unfolding rk by (rule tierRunK_ranks_perm(1))
  have rlen: "length (r_ranks res) = ?N"
    unfolding rk by (rule tierRunK_ranks_perm(2))
  have "sum_list (r_deltas res) = sum_list (r_payouts res) - sum_list (r_fees res)"
    unfolding de by (rule sum_list_diff_nth) (simp_all add: pa fe rlen)
  also have "sum_list (r_payouts res)
      = sum_list (map (\<lambda>r. weightOfRank weights r * r_pool res + fixedOfRank ?N y ?g ?K r)
                   [1..<Suc ?N])"
    unfolding pa by (rule sum_list_perm_map[OF perm])
  also have "\<dots> = sum_list (map (weightOfRank weights) [1..<Suc ?N]) * r_pool res
                 + sum_list (map (fixedOfRank ?N y ?g ?K) [1..<Suc ?N])"
    by (simp only: sum_list_addf sum_list_mult_const)
  also have "sum_list (map (weightOfRank weights) [1..<Suc ?N]) = 1"
    using wlen wsum by (simp only: sum_weightOfRank take_all)
  also have "sum_list (map (fixedOfRank ?N y ?g ?K) [1..<Suc ?N])
             = y * real (eligibleCount pol ?N)"
  proof -
    have "fixedOfRank ?N y ?g ?K = (\<lambda>r. if eligible pol ?N r then y else 0)"
      by (intro ext) (rule fixedOfRank_policy)
    then show ?thesis by (simp only: sum_list_if_filter eligible_count)
  qed
  finally have total: "sum_list (r_deltas res) = y * real (eligibleCount pol ?N)"
    by (simp add: po)
  have v1: "tierRun playersIdx players z y weights ?g noise = Inr (players', res)"
    if "policyK pol = None"
    using run that by (simp only: tierRun_eq)
  show ?thesis
    by (rule exI[of _ players'], rule exI[of _ res]) (intro conjI impI run total v1)
qed

theorem tierRun_conservation_witness:
  "list_all (\<lambda>pi. pi < length [\<lparr>p_id = 0, skill = 1, chips = 100\<rparr>,
        \<lparr>p_id = 1, skill = 2, chips = 100\<rparr>, \<lparr>p_id = 2, skill = 3, chips = 100\<rparr>]) [0, 1, 2]
   \<and> (0::real) < 10 \<and> length [1/2, 3/10, 1/5 :: real] \<le> length [0::nat, 1, 2]
   \<and> sum_list [1/2, 3/10, 1/5 :: real] = 1
   \<and> sum_list (r_deltas (snd (projr (tierRunK [0, 1, 2]
        [\<lparr>p_id = 0, skill = 1, chips = 100\<rparr>, \<lparr>p_id = 1, skill = 2, chips = 100\<rparr>,
         \<lparr>p_id = 2, skill = 3, chips = 100\<rparr>] 10 50 [1/2, 3/10, 1/5] True None (\<lambda>j. 0))))) = 100"
proof -
  let ?P = "[\<lparr>p_id = 0, skill = 1, chips = 100\<rparr>, \<lparr>p_id = 1, skill = 2, chips = 100\<rparr>,
         \<lparr>p_id = 2, skill = 3, chips = 100\<rparr>]"
  have v: "list_all (\<lambda>pi. pi < length ?P) [0, 1, 2]" by simp
  have z: "(0::real) < 10" by simp
  have l: "length [1/2, 3/10, 1/5 :: real] \<le> length [0::nat, 1, 2]" by simp
  have w: "sum_list [1/2, 3/10, 1/5 :: real] = 1" by simp
  have c: "ceilHalf (Suc (Suc (Suc 0))) = 2" by (simp add: ceilHalf_eq)
  from tierRun_conservation[OF v z l w, of 50 TopHalf "\<lambda>j. 0"]
  obtain players' res where
    "tierRunK [0, 1, 2] ?P 10 50 [1/2, 3/10, 1/5] True None (\<lambda>j. 0) = Inr (players', res)"
    "sum_list (r_deltas res) = 50 * real (eligibleCount TopHalf (length [0::nat, 1, 2]))"
    by auto
  then have "sum_list (r_deltas (snd (projr (tierRunK [0, 1, 2] ?P 10 50 [1/2, 3/10, 1/5] True None
                (\<lambda>j. 0))))) = 100"
    using c by simp
  then show ?thesis using v z l w by blast
qed

section \<open>Worlds after a Regional\<close>

lemma regOrder_rankBy: "regOrder regIdxs regRanks = fst (rankBy (regPoints regIdxs regRanks))"
  by (simp add: regOrder_def rankBy_def Let_def)

lemma regPoints_length: "length (regPoints regIdxs regRanks) = length regRanks"
  by (simp add: regPoints_def Let_def)

lemma regPoints_nth:
  "j < length regRanks \<Longrightarrow>
   regPoints regIdxs regRanks ! j = weightOfRank (weightsReg (length regIdxs)) (regRanks ! j) * 100"
  by (simp add: regPoints_def Let_def)

lemma rankBy_order_descending:
  assumes "a < b" "b < length vals"
  shows "vals ! (fst (rankBy vals) ! b) \<le> vals ! (fst (rankBy vals) ! a)"
proof -
  let ?L = "sort_key (\<lambda>x. - fst x) (zip vals [0..<length vals])"
  have a: "a < length vals" using assms by simp
  have "rankedBefore (?L ! a) (?L ! b)"
    using rankBy_sorted_elems(1)[of vals] assms rankBy_sorted_elems(2)[of vals]
    by (simp add: sorted_wrt_iff_nth_less)
  then show ?thesis
    unfolding rankBy_sorted_elems(3)[OF a] rankBy_sorted_elems(3)[OF assms(2)]
    by (auto simp: rankedBefore_def)
qed

lemma take_order_best:
  assumes j: "j \<in> set (take q (fst (rankBy vals)))"
    and j': "j' < length vals" "j' \<notin> set (take q (fst (rankBy vals)))"
  shows "vals ! j' \<le> vals ! j"
proof -
  let ?ord = "fst (rankBy vals)"
  have olen: "length ?ord = length vals" by (rule rankBy_order_facts(1))
  from j obtain a where a: "a < q" "a < length vals" "?ord ! a = j"
    by (auto simp: in_set_conv_nth olen)
  have "j' \<in> set ?ord" using j'(1) by (simp add: rankBy_order_facts(3))
  then obtain b where b: "b < length vals" "?ord ! b = j'"
    by (auto simp: in_set_conv_nth olen)
  have "\<not> b < q"
  proof
    assume "b < q"
    then have "?ord ! b \<in> set (take q ?ord)"
      using b(1) olen by (auto simp: in_set_conv_nth intro!: exI[of _ b])
    then show False using j'(2) b(2) by simp
  qed
  then have "a < b" using a(1) by simp
  from rankBy_order_descending[OF this b(1)] show ?thesis using a(3) b(2) by simp
qed

lemma qualifier_slots:
  fixes regIdxs regRanks :: "nat list"
  defines "js \<equiv> take ourWorldQuota (regOrder regIdxs regRanks)"
  shows "length js = min ourWorldQuota (length regRanks)"
    and "distinct js"
    and "j \<in> set js \<Longrightarrow> j < length regRanks"
    and "j \<in> set js \<Longrightarrow> j' < length regRanks \<Longrightarrow> j' \<notin> set js \<Longrightarrow>
         regPoints regIdxs regRanks ! j' \<le> regPoints regIdxs regRanks ! j"
proof -
  let ?pts = "regPoints regIdxs regRanks"
  have olen: "length (fst (rankBy ?pts)) = length regRanks"
    by (simp add: rankBy_order_facts(1) regPoints_length)
  show "length js = min ourWorldQuota (length regRanks)"
    unfolding js_def regOrder_rankBy by (simp add: olen min.commute)
  show "distinct js"
    unfolding js_def regOrder_rankBy by (rule distinct_take) (rule rankBy_order_facts(2))
  show "j < length regRanks" if "j \<in> set js"
  proof -
    have "j \<in> set (fst (rankBy ?pts))" using that unfolding js_def regOrder_rankBy
      by (rule in_set_takeD)
    then show ?thesis by (simp add: rankBy_order_facts(3) regPoints_length)
  qed
  show "?pts ! j' \<le> ?pts ! j" if "j \<in> set js" "j' < length regRanks" "j' \<notin> set js"
    using that unfolding js_def regOrder_rankBy
    by (intro take_order_best) (simp_all add: regPoints_length)
qed

lemma worldsIdxs_length: "length ourLocal \<le> world \<Longrightarrow> length (worldsIdxs ourLocal) = world"
  by (simp add: worldsIdxs_def)

lemma worldsIdxs_nth:
  "k < length ourLocal \<Longrightarrow> worldsIdxs ourLocal ! k = int (ourLocal ! k)"
  "length ourLocal \<le> k \<Longrightarrow> k < world \<Longrightarrow> worldsIdxs ourLocal ! k = - 1"
  by (simp_all add: worldsIdxs_def nth_append)

lemma worldsField_length:
  "length ourLocal \<le> world \<Longrightarrow> length (worldsField players ourLocal noise) = world"
  by (simp add: worldsField_def Let_def worldsIdxs_length)

lemma worldsField_real:
  assumes "length ourLocal \<le> world" "k < length ourLocal"
  shows "worldsField players ourLocal noise ! k =
           \<lparr>p_id = int (ourLocal ! k), skill = skill (players ! (ourLocal ! k)),
            chips = chips (players ! (ourLocal ! k))\<rparr>"
proof -
  have k: "k < world" using assms by simp
  show ?thesis
    using assms k
    by (simp add: worldsField_def Let_def worldsIdxs_length worldsIdxs_nth(1) nth_append)
qed

lemma worldsField_external:
  assumes "length ourLocal \<le> k" "k < world"
  shows "worldsField players ourLocal noise ! k =
           \<lparr>p_id = - 1,
            skill = median (map (\<lambda>pi. skill (players ! pi)) ourLocal)
                    + noise (k - length ourLocal) * 0.8,
            chips = median (map (\<lambda>pi. chips (players ! pi)) ourLocal)\<rparr>"
proof -
  have l: "length ourLocal \<le> world" using assms by simp
  have n: "\<not> k < length ourLocal" using assms by simp
  have d: "k - length ourLocal < world - length ourLocal" using assms by simp
  show ?thesis
    using assms l n d
    by (simp add: worldsField_def Let_def worldsIdxs_length worldsIdxs_nth(2) nth_append)
qed

text \<open>The write-back touches the qualifiers' entries only.\<close>

lemma writeBack_prefix:
  fixes fp players :: "player list" and ourLocal :: "nat list"
  assumes "distinct ourLocal" "\<forall>i \<in> set ourLocal. i < length players" "n \<le> length ourLocal"
  defines "f \<equiv> \<lambda>k nx. let gid = worldsIdxs ourLocal ! k
                   in if gid \<ge> 0
                      then nx[nat gid := (nx ! nat gid)\<lparr>chips := chips (fp ! k)\<rparr>]
                      else nx"
  shows "length (fold f [0..<n] players) = length players
    \<and> (\<forall>i. i \<notin> set (take n ourLocal) \<longrightarrow> fold f [0..<n] players ! i = players ! i)
    \<and> (\<forall>k<n. fold f [0..<n] players ! (ourLocal ! k)
                 = (players ! (ourLocal ! k))\<lparr>chips := chips (fp ! k)\<rparr>)"
  using assms(3)
proof (induction n)
  case 0
  then show ?case by simp
next
  case (Suc n)
  let ?R = "fold f [0..<n] players"
  have n: "n < length ourLocal" using Suc.prems by simp
  have IH: "length ?R = length players"
    "\<And>i. i \<notin> set (take n ourLocal) \<Longrightarrow> ?R ! i = players ! i"
    "\<And>k. k < n \<Longrightarrow> ?R ! (ourLocal ! k) = (players ! (ourLocal ! k))\<lparr>chips := chips (fp ! k)\<rparr>"
    using Suc.IH n by simp_all
  have step: "fold f [0..<Suc n] players
              = ?R[ourLocal ! n := (?R ! (ourLocal ! n))\<lparr>chips := chips (fp ! n)\<rparr>]"
    by (simp add: f_def Let_def worldsIdxs_nth(1)[OF n])
  have fresh: "ourLocal ! n \<notin> set (take n ourLocal)"
  proof
    assume "ourLocal ! n \<in> set (take n ourLocal)"
    then obtain k where "k < n" "ourLocal ! k = ourLocal ! n"
      by (auto simp: in_set_conv_nth)
    then show False using assms(1) n by (simp add: nth_eq_iff_index_eq)
  qed
  have old: "?R ! (ourLocal ! n) = players ! (ourLocal ! n)" by (rule IH(2)[OF fresh])
  have bound: "ourLocal ! n < length ?R" using assms(2) n IH(1) by simp
  have tk: "set (take (Suc n) ourLocal) = insert (ourLocal ! n) (set (take n ourLocal))"
    using n by (simp add: take_Suc_conv_app_nth)
  have 1: "length (fold f [0..<Suc n] players) = length players"
    unfolding step using IH(1) by simp
  have 2: "fold f [0..<Suc n] players ! i = players ! i" if "i \<notin> set (take (Suc n) ourLocal)" for i
    unfolding step using that IH(2)[of i] unfolding tk by simp
  have 3: "fold f [0..<Suc n] players ! (ourLocal ! k)
           = (players ! (ourLocal ! k))\<lparr>chips := chips (fp ! k)\<rparr>" if "k < Suc n" for k
  proof (cases "k = n")
    case True
    then show ?thesis unfolding step using bound old by simp
  next
    case False
    then have kn: "k < n" using that by simp
    have "ourLocal ! k \<noteq> ourLocal ! n"
      using assms(1) n kn by (simp add: nth_eq_iff_index_eq)
    then show ?thesis unfolding step using IH(3)[OF kn] by simp
  qed
  show ?case using 1 2 3 by blast
qed

lemma writeBack_external_noop:
  fixes fp ps :: "player list" and ourLocal :: "nat list"
  assumes "length ourLocal \<le> n" "m \<le> world"
  defines "f \<equiv> \<lambda>k nx. let gid = worldsIdxs ourLocal ! k
                   in if gid \<ge> 0
                      then nx[nat gid := (nx ! nat gid)\<lparr>chips := chips (fp ! k)\<rparr>]
                      else nx"
  shows "fold f [n..<m] ps = ps"
  using assms(2)
proof (induction m)
  case 0
  then show ?case by simp
next
  case (Suc m)
  show ?case
  proof (cases "n \<le> m")
    case True
    have "worldsIdxs ourLocal ! m = - 1"
      using worldsIdxs_nth(2)[of ourLocal m] assms(1) True Suc.prems by simp
    then show ?thesis using True Suc by (simp add: f_def Let_def)
  next
    case False
    then show ?thesis by simp
  qed
qed

lemma writeBack_facts:
  assumes "distinct ourLocal" "\<forall>i \<in> set ourLocal. i < length players"
    and "length ourLocal \<le> world" "length fp = world"
  shows "length (writeBack (worldsIdxs ourLocal) fp players) = length players"
    and "i \<notin> set ourLocal \<Longrightarrow> writeBack (worldsIdxs ourLocal) fp players ! i = players ! i"
    and "k < length ourLocal \<Longrightarrow>
         writeBack (worldsIdxs ourLocal) fp players ! (ourLocal ! k)
           = (players ! (ourLocal ! k))\<lparr>chips := chips (fp ! k)\<rparr>"
proof -
  let ?f = "\<lambda>k nx. let gid = worldsIdxs ourLocal ! k
                   in if gid \<ge> 0
                      then nx[nat gid := (nx ! nat gid)\<lparr>chips := chips (fp ! k)\<rparr>]
                      else nx"
  let ?n = "length ourLocal"
  have split: "[0..<world] = [0..<?n] @ [?n..<world]"
    using upt_add_eq_append[of 0 ?n "world - ?n"] assms(3) by simp
  have "writeBack (worldsIdxs ourLocal) fp players = fold ?f [?n..<world] (fold ?f [0..<?n] players)"
    unfolding writeBack_def assms(4) by (subst split) (simp only: fold_append o_apply)
  also have "\<dots> = fold ?f [0..<?n] players"
    by (rule writeBack_external_noop) simp_all
  finally have eq: "writeBack (worldsIdxs ourLocal) fp players = fold ?f [0..<?n] players" .
  note P = writeBack_prefix[OF assms(1,2) order_refl, of fp]
  show "length (writeBack (worldsIdxs ourLocal) fp players) = length players"
    unfolding eq using P by blast
  show "writeBack (worldsIdxs ourLocal) fp players ! i = players ! i" if "i \<notin> set ourLocal"
    unfolding eq using P that by simp
  show "writeBack (worldsIdxs ourLocal) fp players ! (ourLocal ! k)
           = (players ! (ourLocal ! k))\<lparr>chips := chips (fp ! k)\<rparr>" if "k < length ourLocal"
    unfolding eq using P that by blast
qed

text \<open>The balances after a settlement whose participants are the slots \<open>0..N-1\<close>.\<close>

lemma applyDeltas_upt_prefix:
  assumes "n \<le> length ps"
  shows "fold (\<lambda>(pi, j) ps. ps[pi := (ps ! pi)\<lparr>chips := chips (ps ! pi) + deltas ! j\<rparr>])
            (zip [0..<n] [0..<n]) ps
         = map (\<lambda>k. if k < n then (ps ! k)\<lparr>chips := chips (ps ! k) + deltas ! k\<rparr> else ps ! k)
             [0..<length ps]"
  using assms
proof (induction n)
  case 0
  then show ?case by (simp add: map_nth)
next
  case (Suc n)
  let ?g = "\<lambda>(pi, j) ps. ps[pi := (ps ! pi)\<lparr>chips := chips (ps ! pi) + deltas ! j\<rparr>]"
  let ?R = "map (\<lambda>k. if k < n then (ps ! k)\<lparr>chips := chips (ps ! k) + deltas ! k\<rparr> else ps ! k)
             [0..<length ps]"
  have n: "n < length ps" using Suc.prems by simp
  have z: "zip [0..<Suc n] [0..<Suc n] = zip [0..<n] [0..<n] @ [(n, n)]"
    by simp
  have "fold ?g (zip [0..<Suc n] [0..<Suc n]) ps = ?g (n, n) (fold ?g (zip [0..<n] [0..<n]) ps)"
    unfolding z by (simp only: fold_append o_apply fold_Cons fold_Nil id_apply)
  also have "fold ?g (zip [0..<n] [0..<n]) ps = ?R" using Suc.IH n by simp
  also have "?g (n, n) ?R
     = map (\<lambda>k. if k < Suc n then (ps ! k)\<lparr>chips := chips (ps ! k) + deltas ! k\<rparr> else ps ! k)
             [0..<length ps]"
    using n by (intro nth_equalityI) (auto simp: nth_list_update less_Suc_eq)
  finally show ?case .
qed

lemma applyDeltas_upt:
  assumes "length ps = N" "k < N"
  shows "applyDeltas [0..<N] deltas ps ! k = (ps ! k)\<lparr>chips := chips (ps ! k) + deltas ! k\<rparr>"
  using applyDeltas_upt_prefix[of N ps deltas] assms by (simp add: applyDeltas_def)

lemma runWorlds_after_regional:
  fixes st :: state and ps :: params and noise :: "nat \<Rightarrow> real"
  assumes last: "find isRegional (rev (st_history st)) = Some (RegionalEvent regIdxs reg)"
    and len: "length (r_ranks reg) = length regIdxs"
    and inside: "list_all (\<lambda>i. i < length (st_players st)) regIdxs"
    and dist: "distinct regIdxs"
  defines "js \<equiv> take ourWorldQuota (regOrder regIdxs (r_ranks reg))"
  defines "ourLocal \<equiv> map (\<lambda>j. regIdxs ! j) js"
  defines "field \<equiv> worldsField (st_players st) ourLocal noise"
  shows "distinct ourLocal" and "length ourLocal \<le> world"
    and "list_all (\<lambda>i. i < length (st_players st)) ourLocal"
    and "\<exists>fp' res'.
          tierRun [0..<world] field (z_world ps) (y_world ps) (weightsWorld world) False
             (\<lambda>j. noise (world - length ourLocal + j)) = Inr (fp', res')
          \<and> length fp' = world
          \<and> (\<forall>k<world. fp' ! k = (field ! k)\<lparr>chips := chips (field ! k) + r_deltas res' ! k\<rparr>)
          \<and> runWorlds ps noise st =
               Inr \<lparr>st_players = writeBack (worldsIdxs ourLocal) fp' (st_players st),
                    st_stage = ''worlds'',
                    st_history = st_history st @
                      [WorldsEvent ourLocal (worldsIdxs ourLocal) (r_order res') (r_ranks res')
                         (r_deltas res') (r_pool res')]\<rparr>"
proof -
  let ?players = "st_players st"
  note Q = qualifier_slots[where regIdxs = regIdxs and regRanks = "r_ranks reg", folded js_def]
  have jlt: "j < length regIdxs" if "j \<in> set js" for j
    using Q(3)[OF that] len by simp
  have ins: "i < length ?players" if "i \<in> set regIdxs" for i
    using inside that by (simp add: list_all_iff)
  have guard: "list_all (\<lambda>j. j < length regIdxs \<and> regIdxs ! j < length ?players) js"
    unfolding list_all_iff using jlt ins by auto
  have "inj_on (\<lambda>j. regIdxs ! j) (set js)"
    using dist jlt by (auto simp: inj_on_def nth_eq_iff_index_eq)
  then show d: "distinct ourLocal"
    unfolding ourLocal_def using Q(2) by (simp add: distinct_map)
  have "length ourLocal \<le> ourWorldQuota" unfolding ourLocal_def using Q(1) by simp
  then show l: "length ourLocal \<le> world" by (simp add: ourWorldQuota_def world_def)
  show i: "list_all (\<lambda>i. i < length ?players) ourLocal"
    unfolding ourLocal_def list_all_iff using jlt ins by auto
  have flen: "length field = world" unfolding field_def by (rule worldsField_length[OF l])
  have ilen: "length (worldsIdxs ourLocal) = world" by (rule worldsIdxs_length[OF l])
  have valid: "list_all (\<lambda>pi. pi < length field) [0..<world]"
    unfolding flen list_all_iff by simp
  from tierRunK_fields[OF valid, where z = "z_world ps" and y = "y_world ps"
      and weights = "weightsWorld world" and g = False and K = None
      and noise = "\<lambda>j. noise (world - length ourLocal + j)"]
  obtain fp' res' where
    run: "tierRunK [0..<world] field (z_world ps) (y_world ps) (weightsWorld world) False None
           (\<lambda>j. noise (world - length ourLocal + j)) = Inr (fp', res')"
    and fp: "fp' = applyDeltas [0..<world] (r_deltas res') field"
    by blast
  have run': "tierRun [0..<world] field (z_world ps) (y_world ps) (weightsWorld world) False
             (\<lambda>j. noise (world - length ourLocal + j)) = Inr (fp', res')"
    unfolding tierRun_eq by (rule run)
  have fplen: "length fp' = world" unfolding fp by (simp add: applyDeltas_length flen)
  have after: "\<forall>k<world. fp' ! k = (field ! k)\<lparr>chips := chips (field ! k) + r_deltas res' ! k\<rparr>"
    unfolding fp using applyDeltas_upt[OF flen] by blast
  have rw: "runWorlds ps noise st =
               Inr \<lparr>st_players = writeBack (worldsIdxs ourLocal) fp' (st_players st),
                    st_stage = ''worlds'',
                    st_history = st_history st @
                      [WorldsEvent ourLocal (worldsIdxs ourLocal) (r_order res') (r_ranks res')
                         (r_deltas res') (r_pool res')]\<rparr>"
    unfolding runWorlds_def last option.case event.case Let_def
    apply (fold js_def)
    apply (simp only: guard not_True_eq_False if_False)
    apply (fold ourLocal_def)
    apply (fold field_def)
    apply (simp only: flen ilen run' sum.case split_conv)
    done
  show "\<exists>fp' res'.
          tierRun [0..<world] field (z_world ps) (y_world ps) (weightsWorld world) False
             (\<lambda>j. noise (world - length ourLocal + j)) = Inr (fp', res')
          \<and> length fp' = world
          \<and> (\<forall>k<world. fp' ! k = (field ! k)\<lparr>chips := chips (field ! k) + r_deltas res' ! k\<rparr>)
          \<and> runWorlds ps noise st =
               Inr \<lparr>st_players = writeBack (worldsIdxs ourLocal) fp' (st_players st),
                    st_stage = ''worlds'',
                    st_history = st_history st @
                      [WorldsEvent ourLocal (worldsIdxs ourLocal) (r_order res') (r_ranks res')
                         (r_deltas res') (r_pool res')]\<rparr>"
    by (rule exI[of _ fp'], rule exI[of _ res']) (intro conjI run' fplen after rw)
qed

lemma median_sorted_middle:
  "median arr =
     (if length arr mod 2 \<noteq> 0 then sort arr ! (length arr div 2)
      else (sort arr ! (length arr div 2 - 1) + sort arr ! (length arr div 2)) / 2)"
  by (simp add: median_def Let_def)

text \<open>
  Claim C6. When the most recent Regional record is well formed (at least one participant,
  one rank per index, the indices distinct and inside the roster), \<^verbatim>\<open>runWorlds\<close> returns
  a state and:
  the qualifiers are \<open>min 12 n\<close> distinct slots of the record (12 when the record has at
  least 12), each with a point score \<open>weight[rank-1] * 100\<close> at least that of every slot
  left out; the field has 48 entrants, the qualifiers with their own skill and balance
  first, then external entrants with id \<open>-1\<close>, whose skill is the median of the
  qualifiers' skills plus \<open>0.8\<close> times a draw and whose balance is the median of the
  qualifiers' balances with no draw added. The median is the middle element of the values
  sorted in ascending order, or the mean of the two middle elements when their number is
  even: with 12 qualifiers, the mean of the sixth and the seventh. After the settlement the
  roster keeps its length, every competitor who is not a qualifier is unchanged, and each
  qualifier's balance is the old balance plus the qualifier's delta, so no balance of an
  external entrant is kept.
\<close>

theorem runWorlds_qualifiers_field_writeback:
  fixes st :: state and ps :: params and noise :: "nat \<Rightarrow> real"
  assumes last: "find isRegional (rev (st_history st)) = Some (RegionalEvent regIdxs reg)"
    and len: "length (r_ranks reg) = length regIdxs"
    and inside: "list_all (\<lambda>i. i < length (st_players st)) regIdxs"
    and dist: "distinct regIdxs"
    and nonempty: "regIdxs \<noteq> []"
  defines "pts \<equiv> regPoints regIdxs (r_ranks reg)"
  defines "js \<equiv> take ourWorldQuota (regOrder regIdxs (r_ranks reg))"
  defines "ourLocal \<equiv> map (\<lambda>j. regIdxs ! j) js"
  defines "field \<equiv> worldsField (st_players st) ourLocal noise"
  defines "skills \<equiv> sort (map (\<lambda>pi. skill (st_players st ! pi)) ourLocal)"
  defines "balances \<equiv> sort (map (\<lambda>pi. chips (st_players st ! pi)) ourLocal)"
  defines "medSkill \<equiv>
             (if length ourLocal mod 2 \<noteq> 0 then skills ! (length ourLocal div 2)
              else (skills ! (length ourLocal div 2 - 1) + skills ! (length ourLocal div 2)) / 2)"
  defines "medChips \<equiv>
             (if length ourLocal mod 2 \<noteq> 0 then balances ! (length ourLocal div 2)
              else (balances ! (length ourLocal div 2 - 1) + balances ! (length ourLocal div 2)) / 2)"
  shows "\<exists>fp' res' st'.
      runWorlds ps noise st = Inr st'
      \<and> tierRun [0..<world] field (z_world ps) (y_world ps) (weightsWorld world) False
           (\<lambda>j. noise (world - length ourLocal + j)) = Inr (fp', res')
      \<and> st_history st' = st_history st @
           [WorldsEvent ourLocal (worldsIdxs ourLocal) (r_order res') (r_ranks res')
              (r_deltas res') (r_pool res')]
      \<and> length ourLocal = min ourWorldQuota (length regIdxs)
      \<and> distinct js
      \<and> (\<forall>j \<in> set js. j < length regIdxs)
      \<and> (\<forall>j \<in> set js. \<forall>j' < length regIdxs. j' \<notin> set js \<longrightarrow> pts ! j' \<le> pts ! j)
      \<and> (\<forall>j < length regIdxs.
            pts ! j = weightOfRank (weightsReg (length regIdxs)) (r_ranks reg ! j) * 100)
      \<and> length field = world
      \<and> (\<forall>k < length ourLocal.
            field ! k = \<lparr>p_id = int (ourLocal ! k),
                         skill = skill (st_players st ! (ourLocal ! k)),
                         chips = chips (st_players st ! (ourLocal ! k))\<rparr>)
      \<and> (\<forall>k. length ourLocal \<le> k \<and> k < world \<longrightarrow>
            field ! k = \<lparr>p_id = - 1,
                         skill = medSkill + noise (k - length ourLocal) * 0.8,
                         chips = medChips\<rparr>)
      \<and> ourLocal \<noteq> []
      \<and> sorted skills \<and> mset skills = mset (map (\<lambda>pi. skill (st_players st ! pi)) ourLocal)
      \<and> sorted balances
      \<and> mset balances = mset (map (\<lambda>pi. chips (st_players st ! pi)) ourLocal)
      \<and> (12 \<le> length regIdxs \<longrightarrow>
            length ourLocal = 12
            \<and> medSkill = (skills ! 5 + skills ! 6) / 2
            \<and> medChips = (balances ! 5 + balances ! 6) / 2)
      \<and> length (st_players st') = length (st_players st)
      \<and> (\<forall>i. i \<notin> set ourLocal \<longrightarrow> st_players st' ! i = st_players st ! i)
      \<and> (\<forall>k < length ourLocal.
            st_players st' ! (ourLocal ! k)
              = (st_players st ! (ourLocal ! k))
                   \<lparr>chips := chips (st_players st ! (ourLocal ! k)) + r_deltas res' ! k\<rparr>)"
proof -
  let ?players = "st_players st"
  note A1 = runWorlds_after_regional(1)[OF last len inside dist, folded js_def,
      folded ourLocal_def]
  note A2 = runWorlds_after_regional(2)[OF last len inside dist, folded js_def,
      folded ourLocal_def]
  note A3 = runWorlds_after_regional(3)[OF last len inside dist, folded js_def,
      folded ourLocal_def]
  note A4 = runWorlds_after_regional(4)[OF last len inside dist, where noise = noise and ps = ps,
      folded js_def, folded ourLocal_def, folded field_def]
  note Q = qualifier_slots[where regIdxs = regIdxs and regRanks = "r_ranks reg",
      folded js_def, folded pts_def, unfolded len]
  from A4 obtain fp' res' where
    run: "tierRun [0..<world] field (z_world ps) (y_world ps) (weightsWorld world) False
             (\<lambda>j. noise (world - length ourLocal + j)) = Inr (fp', res')"
    and fplen: "length fp' = world"
    and after: "\<forall>k<world. fp' ! k = (field ! k)\<lparr>chips := chips (field ! k) + r_deltas res' ! k\<rparr>"
    and rw: "runWorlds ps noise st =
               Inr \<lparr>st_players = writeBack (worldsIdxs ourLocal) fp' ?players,
                    st_stage = ''worlds'',
                    st_history = st_history st @
                      [WorldsEvent ourLocal (worldsIdxs ourLocal) (r_order res') (r_ranks res')
                         (r_deltas res') (r_pool res')]\<rparr>"
    by blast
  define st' where "st' = \<lparr>st_players = writeBack (worldsIdxs ourLocal) fp' ?players,
                    st_stage = ''worlds'',
                    st_history = st_history st @
                      [WorldsEvent ourLocal (worldsIdxs ourLocal) (r_order res') (r_ranks res')
                         (r_deltas res') (r_pool res')]\<rparr>"
  have c1: "runWorlds ps noise st = Inr st'" unfolding st'_def by (rule rw)
  have c3: "st_history st' = st_history st @
           [WorldsEvent ourLocal (worldsIdxs ourLocal) (r_order res') (r_ranks res')
              (r_deltas res') (r_pool res')]"
    by (simp add: st'_def)
  have pl: "st_players st' = writeBack (worldsIdxs ourLocal) fp' ?players"
    by (simp add: st'_def)
  have c4: "length ourLocal = min ourWorldQuota (length regIdxs)"
    unfolding ourLocal_def using Q(1) by simp
  have c5: "distinct js" by (rule Q(2))
  have c6: "\<forall>j \<in> set js. j < length regIdxs" using Q(3) by blast
  have c7: "\<forall>j \<in> set js. \<forall>j' < length regIdxs. j' \<notin> set js \<longrightarrow> pts ! j' \<le> pts ! j"
    using Q(4) by blast
  have c8: "\<forall>j < length regIdxs.
            pts ! j = weightOfRank (weightsReg (length regIdxs)) (r_ranks reg ! j) * 100"
    unfolding pts_def using regPoints_nth[of _ "r_ranks reg" regIdxs] len by simp
  have c9: "length field = world" unfolding field_def by (rule worldsField_length[OF A2])
  have c10: "\<forall>k < length ourLocal.
            field ! k = \<lparr>p_id = int (ourLocal ! k),
                         skill = skill (?players ! (ourLocal ! k)),
                         chips = chips (?players ! (ourLocal ! k))\<rparr>"
    unfolding field_def using worldsField_real[OF A2] by blast
  have c11: "\<forall>k. length ourLocal \<le> k \<and> k < world \<longrightarrow>
            field ! k = \<lparr>p_id = - 1,
                         skill = medSkill + noise (k - length ourLocal) * 0.8,
                         chips = medChips\<rparr>"
    unfolding field_def medSkill_def medChips_def skills_def balances_def
    using worldsField_external[of ourLocal _ ?players noise]
    by (simp add: median_sorted_middle)
  have c15: "ourLocal \<noteq> []"
  proof -
    have "0 < length regIdxs" using nonempty by simp
    then have "0 < length ourLocal" unfolding c4 by (simp add: ourWorldQuota_def)
    then show ?thesis by auto
  qed
  have c16: "sorted skills" "mset skills = mset (map (\<lambda>pi. skill (?players ! pi)) ourLocal)"
    "sorted balances" "mset balances = mset (map (\<lambda>pi. chips (?players ! pi)) ourLocal)"
    unfolding skills_def balances_def by simp_all
  have c17: "length ourLocal = 12 \<and> medSkill = (skills ! 5 + skills ! 6) / 2
            \<and> medChips = (balances ! 5 + balances ! 6) / 2" if "12 \<le> length regIdxs"
  proof -
    have l: "length ourLocal = 12" using c4 that by (simp add: ourWorldQuota_def)
    show ?thesis unfolding medSkill_def medChips_def l by simp
  qed
  have ins: "\<forall>i \<in> set ourLocal. i < length ?players"
    using A3 by (simp add: list_all_iff)
  note W = writeBack_facts[OF A1 ins A2 fplen]
  have c12: "length (st_players st') = length ?players" unfolding pl by (rule W(1))
  have c13: "\<forall>i. i \<notin> set ourLocal \<longrightarrow> st_players st' ! i = ?players ! i"
    unfolding pl using W(2) by blast
  have c14: "st_players st' ! (ourLocal ! k)
              = (?players ! (ourLocal ! k))
                   \<lparr>chips := chips (?players ! (ourLocal ! k)) + r_deltas res' ! k\<rparr>"
    if k: "k < length ourLocal" for k
  proof -
    have kw: "k < world" using k A2 by simp
    have f: "field ! k = \<lparr>p_id = int (ourLocal ! k),
                         skill = skill (?players ! (ourLocal ! k)),
                         chips = chips (?players ! (ourLocal ! k))\<rparr>"
      using c10 k by blast
    have "chips (fp' ! k) = chips (field ! k) + r_deltas res' ! k"
      using after kw by simp
    then have "chips (fp' ! k) = chips (?players ! (ourLocal ! k)) + r_deltas res' ! k"
      unfolding f by simp
    then show ?thesis unfolding pl W(3)[OF k] by simp
  qed
  show ?thesis
    apply (rule exI[of _ fp'], rule exI[of _ res'], rule exI[of _ st'])
    apply (intro conjI c1 run c3 c4 c5 c6 c7 c8 c9 c10 c11 c15 c16 c12 c13)
    using c17 apply blast
    using c14 apply blast
    done
qed

lemma regOrder_32_value:
  "take ourWorldQuota (regOrder [0..<32] [1..<33]) = [0, 1, 2, 3, 4, 5, 8, 9, 10, 11, 12, 13]"
  by code_simp

lemma qualifiers_32_value:
  "map (\<lambda>j. [0..<32] ! j) (take ourWorldQuota (regOrder [0..<32] [1..<33]))
     = [0, 1, 2, 3, 4, 5, 8, 9, 10, 11, 12, 13]"
  unfolding regOrder_32_value by simp

lemma external_entrant_32_value:
  "worldsField (map (\<lambda>i. \<lparr>p_id = int i, skill = real i / 10, chips = 100 + real i\<rparr>) [0..<32])
      [0, 1, 2, 3, 4, 5, 8, 9, 10, 11, 12, 13] (\<lambda>j. 1 / 2) ! 12
     = \<lparr>p_id = - 1, skill = 21 / 20, chips = 213 / 2\<rparr>"
  by code_simp

theorem runWorlds_qualifiers_field_writeback_witness:
  "find isRegional (rev [RegionalEvent [0..<32]
       \<lparr>r_order = [0..<32], r_ranks = [1..<33], r_deltas = [], r_pool = 0, r_fees = [],
        r_payouts = [], r_sharePool = [], r_fixedY = []\<rparr>])
     = Some (RegionalEvent [0..<32]
       \<lparr>r_order = [0..<32], r_ranks = [1..<33], r_deltas = [], r_pool = 0, r_fees = [],
        r_payouts = [], r_sharePool = [], r_fixedY = []\<rparr>)
   \<and> length [1..<33 :: nat] = length [0..<32 :: nat]
   \<and> list_all (\<lambda>i. i < length (map (\<lambda>i. \<lparr>p_id = int i, skill = real i / 10,
                                               chips = 100 + real i\<rparr>) [0..<32])) [0..<32]
   \<and> distinct [0..<32 :: nat] \<and> [0..<32 :: nat] \<noteq> []
   \<and> take ourWorldQuota (regOrder [0..<32] [1..<33]) = [0, 1, 2, 3, 4, 5, 8, 9, 10, 11, 12, 13]
   \<and> regPoints [0..<32] [1..<33] ! 6 \<le> regPoints [0..<32] [1..<33] ! 13
   \<and> sort (map (\<lambda>pi. skill (map (\<lambda>i. \<lparr>p_id = int i, skill = real i / 10,
                                          chips = 100 + real i\<rparr>) [0..<32] ! pi))
              [0, 1, 2, 3, 4, 5, 8, 9, 10, 11, 12, 13]) ! 5 = 1 / 2
   \<and> sort (map (\<lambda>pi. skill (map (\<lambda>i. \<lparr>p_id = int i, skill = real i / 10,
                                          chips = 100 + real i\<rparr>) [0..<32] ! pi))
              [0, 1, 2, 3, 4, 5, 8, 9, 10, 11, 12, 13]) ! 6 = 4 / 5
   \<and> worldsField (map (\<lambda>i. \<lparr>p_id = int i, skill = real i / 10, chips = 100 + real i\<rparr>) [0..<32])
        [0, 1, 2, 3, 4, 5, 8, 9, 10, 11, 12, 13] (\<lambda>j. 1 / 2) ! 12
       = \<lparr>p_id = - 1, skill = (1 / 2 + 4 / 5) / 2 + 1 / 2 * 0.8, chips = 213 / 2\<rparr>"
proof -
  let ?reg = "\<lparr>r_order = [0..<32], r_ranks = [1..<33], r_deltas = [], r_pool = 0, r_fees = [],
        r_payouts = [], r_sharePool = [], r_fixedY = []\<rparr>"
  let ?P = "map (\<lambda>i. \<lparr>p_id = int i, skill = real i / 10, chips = 100 + real i\<rparr>) [0..<32]"
  let ?st = "\<lparr>st_players = ?P, st_stage = ''regional'',
              st_history = [RegionalEvent [0..<32] ?reg]\<rparr>"
  let ?Q = "[0, 1, 2, 3, 4, 5, 8, 9, 10, 11, 12, 13 :: nat]"
  let ?skills = "sort (map (\<lambda>pi. skill (?P ! pi)) ?Q)"
  have h1: "find isRegional (rev (st_history ?st)) = Some (RegionalEvent [0..<32] ?reg)"
    by simp
  have h2: "length (r_ranks ?reg) = length [0..<32 :: nat]" by simp
  have h3: "list_all (\<lambda>i. i < length (st_players ?st)) [0..<32]"
    by (simp add: list_all_iff)
  have h4: "distinct [0..<32 :: nat]" by simp
  have h5: "[0..<32 :: nat] \<noteq> []" by simp
  note T = runWorlds_qualifiers_field_writeback[OF h1 h2 h3 h4 h5,
      of "\<lparr>z_world = 3, y_world = 400, decay_pct = 10\<rparr>" "\<lambda>j. 1 / 2"]
  have r: "r_ranks ?reg = [1..<33]" and p: "st_players ?st = ?P" by simp_all
  have sel: "\<forall>j \<in> set (take ourWorldQuota (regOrder [0..<32] (r_ranks ?reg))).
               \<forall>j' < length [0..<32 :: nat].
                 j' \<notin> set (take ourWorldQuota (regOrder [0..<32] (r_ranks ?reg))) \<longrightarrow>
                 regPoints [0..<32] (r_ranks ?reg) ! j' \<le> regPoints [0..<32] (r_ranks ?reg) ! j"
    using T by blast
  have pts: "regPoints [0..<32] [1..<33] ! 6 \<le> regPoints [0..<32] [1..<33] ! 13"
    using sel unfolding r regOrder_32_value by simp
  have s5: "?skills ! 5 = 1 / 2" by code_simp
  have s6: "?skills ! 6 = 4 / 5" by code_simp
  have ext: "worldsField ?P ?Q (\<lambda>j. 1 / 2) ! 12
       = \<lparr>p_id = - 1, skill = (1 / 2 + 4 / 5) / 2 + 1 / 2 * 0.8, chips = 213 / 2\<rparr>"
    unfolding external_entrant_32_value by simp
  show ?thesis
    using h1 h2 h3 h4 h5 regOrder_32_value pts s5 s6 ext by simp
qed

end
